theory Spec2Isabelle
  imports Main "HOL-Library.Word" "HOL-Library.AList"
begin

unbundle bit_operations_syntax

section \<open>The kqueue watcher (src/watcher/kqueue.cpp)\<close>

text \<open>
  The watcher keeps two hash tables, \<open>name_to_fd\<close> and \<open>fd_to_name\<close>, and talks to the
  kernel through \<open>open\<close>, \<open>close\<close>, \<open>fstat\<close> and \<open>kevent\<close>. The model passes the state
  explicitly. What the kernel answers (the value \<open>open\<close> returns, the events \<open>kevent\<close>
  delivers, the clock) is an argument of each operation. The mutex only serialises
  access to the tables and the calls to \<open>w_log\<close> and \<open>w_expand_flags\<close> only write
  the log, so neither appears below.
\<close>

type_synonym fd = int
type_synonym w_string = string
type_synonym watchman_dir_handle = nat

record timeval =
  tv_sec :: int
  tv_usec :: int

text \<open>
  The descriptors the process holds, the directory streams \<open>w_dir_open\<close> returned and
  the descriptors registered with the kqueue (\<open>EV_ADD\<close> on \<open>kq_fd\<close>), next to the
  two tables of \<open>struct KQueueWatcher\<close>.
\<close>

record KQueueWatcher =
  name_to_fd :: "w_string \<rightharpoonup> fd"
  fd_to_name :: "fd \<rightharpoonup> w_string"
  open_fds :: "fd set"
  open_dirs :: "watchman_dir_handle set"
  kq_registered :: "fd set"

text \<open>
  The part of \<open>w_root_t\<close> the watcher touches: the path of the root and the \<open>cancelled\<close>
  flag the source reads as \<open>root->inner.cancelled\<close>.

  Modelled from the spec: \<open>w_root_cancel\<close>, \<open>w_root_schedule_recrawl\<close> and
  \<open>handle_open_errno\<close>, helpers of the daemon whose bodies are not among the sources.
  "Each root carries a cancelled flag", and a root loss "cancels the root": the cancel
  sets the flag. The other two are recorded in the root as the list of the calls made,
  each with the reason or with the system call name and the errno it was given.
\<close>

record w_root =
  root_path :: w_string
  cancelled :: bool
  recrawl_reasons :: "string list"
  open_errno_calls :: "(string \<times> int) list"

definition w_root_cancel :: "w_root \<Rightarrow> w_root" where
  "w_root_cancel root = root\<lparr>cancelled := True\<rparr>"

definition w_root_schedule_recrawl :: "string \<Rightarrow> w_root \<Rightarrow> w_root" where
  "w_root_schedule_recrawl why root = root\<lparr>recrawl_reasons := recrawl_reasons root @ [why]\<rparr>"

definition handle_open_errno :: "string \<Rightarrow> int \<Rightarrow> w_root \<Rightarrow> w_root" where
  "handle_open_errno syscall err root =
     root\<lparr>open_errno_calls := open_errno_calls root @ [(syscall, err)]\<rparr>"

text \<open>\<open>ENOTDIR\<close> of \<open>errno.h\<close> (20 on the BSDs, macOS and Linux).\<close>

definition ENOTDIR :: int where
  "ENOTDIR = 20"

subsection \<open>System calls\<close>

text \<open>
  \<open>close\<close> releases the descriptor; the kernel drops the kqueue registrations of a
  descriptor when it is closed. \<open>kevent\<close> with \<open>EV_ADD\<close> registers the descriptor when
  it succeeds, with \<open>EV_DELETE\<close> it removes the registration.
\<close>

definition sys_open :: "fd \<Rightarrow> KQueueWatcher \<Rightarrow> KQueueWatcher" where
  "sys_open d w = w\<lparr>open_fds := insert d (open_fds w)\<rparr>"

definition sys_close :: "fd \<Rightarrow> KQueueWatcher \<Rightarrow> KQueueWatcher" where
  "sys_close d w = w\<lparr>open_fds := open_fds w - {d}, kq_registered := kq_registered w - {d}\<rparr>"

definition kevent_add :: "fd \<Rightarrow> KQueueWatcher \<Rightarrow> KQueueWatcher" where
  "kevent_add d w = w\<lparr>kq_registered := insert d (kq_registered w)\<rparr>"

definition kevent_delete :: "fd \<Rightarrow> KQueueWatcher \<Rightarrow> KQueueWatcher" where
  "kevent_delete d w = w\<lparr>kq_registered := kq_registered w - {d}\<rparr>"

definition w_dir_opened :: "watchman_dir_handle \<Rightarrow> KQueueWatcher \<Rightarrow> KQueueWatcher" where
  "w_dir_opened h w = w\<lparr>open_dirs := insert h (open_dirs w)\<rparr>"

definition w_dir_close :: "watchman_dir_handle \<Rightarrow> KQueueWatcher \<Rightarrow> KQueueWatcher" where
  "w_dir_close h w = w\<lparr>open_dirs := open_dirs w - {h}\<rparr>"

subsection \<open>The two hash tables\<close>

text \<open>
  \<open>name_to_fd_funcs\<close> gives \<open>name_to_fd\<close> the value destructor \<open>kqueue_del_key\<close>,
  which closes the descriptor: an entry that leaves the table, deleted or replaced,
  closes the descriptor it held. \<open>fd_to_name\<close> holds strings, whose destructor only
  drops a reference.
\<close>

definition kqueue_del_key :: "fd \<Rightarrow> KQueueWatcher \<Rightarrow> KQueueWatcher" where
  "kqueue_del_key key w = sys_close key w"

definition name_to_fd_replace :: "w_string \<Rightarrow> fd \<Rightarrow> KQueueWatcher \<Rightarrow> KQueueWatcher" where
  "name_to_fd_replace k d w =
     (let w1 = (case name_to_fd w k of None \<Rightarrow> w | Some old \<Rightarrow> kqueue_del_key old w)
      in w1\<lparr>name_to_fd := (name_to_fd w1)(k \<mapsto> d)\<rparr>)"

definition name_to_fd_del :: "w_string \<Rightarrow> KQueueWatcher \<Rightarrow> KQueueWatcher" where
  "name_to_fd_del k w =
     (case name_to_fd w k of
        None \<Rightarrow> w
      | Some old \<Rightarrow> (kqueue_del_key old w)\<lparr>name_to_fd := (name_to_fd w)(k := None)\<rparr>)"

definition fd_to_name_replace :: "fd \<Rightarrow> w_string \<Rightarrow> KQueueWatcher \<Rightarrow> KQueueWatcher" where
  "fd_to_name_replace d k w = w\<lparr>fd_to_name := (fd_to_name w)(d \<mapsto> k)\<rparr>"

definition fd_to_name_del :: "fd \<Rightarrow> KQueueWatcher \<Rightarrow> KQueueWatcher" where
  "fd_to_name_del d w = w\<lparr>fd_to_name := (fd_to_name w)(d := None)\<rparr>"

subsection \<open>startWatchFile\<close>

text \<open>
  Modelled from the spec: \<open>w_dir_path_cat_str\<close>, whose body is not among the sources;
  it is the "concatenate-with-separator" of the path keys, applied to the path of the
  file's directory and the file's name. The arguments \<open>open_ret\<close> and \<open>kevent_ret\<close> of
  \<open>startWatchFile\<close> are what \<open>open\<close> and \<open>kevent\<close> return in this call.
\<close>

record watchman_file_ref =
  parent_path :: w_string
  file_name :: w_string

definition w_dir_path_cat_str :: "w_string \<Rightarrow> w_string \<Rightarrow> w_string" where
  "w_dir_path_cat_str dir_path nm = dir_path @ ''/'' @ nm"

definition startWatchFile ::
  "watchman_file_ref \<Rightarrow> int \<Rightarrow> int \<Rightarrow> KQueueWatcher \<Rightarrow> bool \<times> KQueueWatcher" where
  "startWatchFile file open_ret kevent_ret w =
     (let full_name = w_dir_path_cat_str (parent_path file) (file_name file) in
      if name_to_fd w full_name \<noteq> None then (True, w)
      else if open_ret = - 1 then (False, w)
      else
        let w1 = sys_open open_ret w;
            w2 = name_to_fd_replace full_name open_ret w1;
            w3 = fd_to_name_replace open_ret full_name w2
        in if kevent_ret \<noteq> 0
           then (True, fd_to_name_del open_ret (name_to_fd_del full_name (sys_close open_ret w3)))
           else (True, kevent_add open_ret w3))"

subsection \<open>startWatchDir\<close>

record stat =
  st_dev :: int
  st_ino :: int

text \<open>
  What the kernel answers during one call of \<open>startWatchDir\<close>: the stream \<open>w_dir_open\<close>
  returns (\<open>None\<close> for a null pointer) and errno after it, the value of \<open>open\<close> and errno
  after it, the two \<open>fstat\<close> results (\<open>None\<close> for \<open>-1\<close>) and the value of \<open>kevent\<close>.
\<close>

record dir_replies =
  opendir_ret :: "watchman_dir_handle option"
  opendir_errno :: int
  open_ret :: int
  open_errno :: int
  fstat_newwd :: "stat option"
  fstat_osdir :: "stat option"
  kevent_ret :: int

definition startWatchDir ::
  "w_string \<Rightarrow> dir_replies \<Rightarrow> KQueueWatcher \<times> w_root
     \<Rightarrow> watchman_dir_handle option \<times> KQueueWatcher \<times> w_root" where
  "startWatchDir dir_name os = (\<lambda>(w, root).
     case opendir_ret os of
       None \<Rightarrow> (None, w, handle_open_errno ''opendir'' (opendir_errno os) root)
     | Some osdir \<Rightarrow>
        let w0 = w_dir_opened osdir w; newwd = open_ret os in
        if newwd = - 1 then
          (None, w_dir_close osdir w0, handle_open_errno ''open'' (open_errno os) root)
        else
          let w1 = sys_open newwd w0 in
          (case (fstat_newwd os, fstat_osdir os) of
             (Some st, Some osdirst) \<Rightarrow>
               if st_dev st \<noteq> st_dev osdirst \<or> st_ino st \<noteq> st_ino osdirst then
                 (None, w_dir_close osdir (sys_close newwd w1),
                  handle_open_errno ''open'' ENOTDIR root)
               else
                 let w2 = name_to_fd_replace dir_name newwd w1;
                     w3 = fd_to_name_replace newwd dir_name w2
                 in if kevent_ret os \<noteq> 0
                    then (Some osdir,
                          fd_to_name_del newwd (name_to_fd_del dir_name (sys_close newwd w3)),
                          root)
                    else (Some osdir, kevent_add newwd w3, root)
           | _ \<Rightarrow>
               (None, w_dir_close osdir (sys_close newwd w1),
                w_root_schedule_recrawl ''fstat failed'' root)))"

subsection \<open>consumeNotify\<close>

text \<open>
  The \<open>fflags\<close> bits of \<open>sys/event.h\<close>, as the BSDs and macOS define them.
\<close>

definition NOTE_DELETE :: "32 word" where "NOTE_DELETE = 0x1"
definition NOTE_WRITE :: "32 word" where "NOTE_WRITE = 0x2"
definition NOTE_EXTEND :: "32 word" where "NOTE_EXTEND = 0x4"
definition NOTE_ATTRIB :: "32 word" where "NOTE_ATTRIB = 0x8"
definition NOTE_LINK :: "32 word" where "NOTE_LINK = 0x10"
definition NOTE_RENAME :: "32 word" where "NOTE_RENAME = 0x20"
definition NOTE_REVOKE :: "32 word" where "NOTE_REVOKE = 0x40"

text \<open>
  One \<open>struct kevent\<close> as the loop reads it: \<open>ident\<close> (the descriptor), \<open>fflags\<close> and
  the directory bit of \<open>udata\<close> (\<open>IS_DIR_BIT_SET\<close>; \<open>startWatchDir\<close> sets it with
  \<open>SET_DIR_BIT\<close>, \<open>startWatchFile\<close> leaves it clear).
\<close>

record kevent =
  ident :: fd
  fflags :: "32 word"
  udata_dir_bit :: bool

text \<open>
  The flag word of a pending entry is the set of its named bits: the numeric values
  of \<open>W_PENDING_RECURSIVE\<close> and \<open>W_PENDING_VIA_NOTIFY\<close> are in a header that is not
  among the sources.
\<close>

datatype pending_flag = W_PENDING_RECURSIVE | W_PENDING_VIA_NOTIFY

record watchman_pending_fs =
  pending_path :: w_string
  pending_now :: timeval
  pending_flags :: "pending_flag set"

type_synonym watchman_pending_collection = "watchman_pending_fs list"

text \<open>
  Modelled from the spec: \<open>w_pending_coll_add\<close>, whose body is not among the sources.
  The spec describes the pending collection as a FIFO batch of
  (path, timestamp, flags) tuples emitted by the watcher backend, so adding an entry
  appends the tuple.
\<close>

definition w_pending_coll_add ::
  "watchman_pending_collection \<Rightarrow> w_string \<Rightarrow> timeval \<Rightarrow> pending_flag set
     \<Rightarrow> watchman_pending_collection" where
  "w_pending_coll_add coll path tv fl =
     coll @ [\<lparr>pending_path = path, pending_now = tv, pending_flags = fl\<rparr>]"

definition is_removal :: "kevent \<Rightarrow> bool" where
  "is_removal e \<longleftrightarrow> fflags e AND (NOTE_DELETE OR NOTE_RENAME OR NOTE_REVOKE) \<noteq> 0"

definition notify_flags :: "kevent \<Rightarrow> pending_flag set" where
  "notify_flags e = (if udata_dir_bit e then {} else {W_PENDING_RECURSIVE, W_PENDING_VIA_NOTIFY})"

text \<open>
  The body of the \<open>for\<close> loop over the delivered events. The first component of the
  result is \<open>False\<close> when the loop was left by \<open>return 0\<close> (the root was cancelled), and
  \<open>True\<close> when it ran to its end.
\<close>

fun consume_events ::
  "timeval \<Rightarrow> kevent list \<Rightarrow> KQueueWatcher \<times> w_root \<times> watchman_pending_collection
     \<Rightarrow> bool \<times> KQueueWatcher \<times> w_root \<times> watchman_pending_collection" where
  "consume_events tv [] s = (True, s)"
| "consume_events tv (e # es) (w, root, coll) =
     (case fd_to_name w (ident e) of
        None \<Rightarrow> consume_events tv es (w, root, coll)
      | Some path \<Rightarrow>
          if is_removal e then
            if path = root_path root then (False, w, w_root_cancel root, coll)
            else
              consume_events tv es
                (fd_to_name_del (ident e) (name_to_fd_del path (kevent_delete (ident e) w)),
                 root,
                 w_pending_coll_add coll path tv (notify_flags e))
          else
            consume_events tv es (w, root, w_pending_coll_add coll path tv (notify_flags e)))"

text \<open>
  \<open>n\<close> is the value of \<open>kevent\<close> and \<open>keventbuf\<close> the buffer it filled; the loop runs over
  the first \<open>n\<close> entries when \<open>n > 0\<close>. \<open>tv\<close> is what \<open>gettimeofday\<close> returns.
\<close>

definition delivered :: "int \<Rightarrow> kevent list \<Rightarrow> kevent list" where
  "delivered n keventbuf = (if n > 0 then take (nat n) keventbuf else [])"

definition consumeNotify ::
  "int \<Rightarrow> kevent list \<Rightarrow> timeval \<Rightarrow> KQueueWatcher \<times> w_root \<times> watchman_pending_collection
     \<Rightarrow> bool \<times> KQueueWatcher \<times> w_root \<times> watchman_pending_collection" where
  "consumeNotify n keventbuf tv = (\<lambda>(w, root, coll).
     if cancelled root then (False, w, root, coll)
     else
       case consume_events tv (delivered n keventbuf) (w, root, coll) of
         (False, s) \<Rightarrow> (False, s)
       | (True, s) \<Rightarrow> (n > 0, s))"

subsection \<open>The events of one delivery\<close>

text \<open>
  The words in which the properties of \<open>consumeNotify\<close> are stated, all in terms of
  the tables at the call. A delivered event is a root loss when it carries a
  \<open>DELETE\<close>, \<open>RENAME\<close> or \<open>REVOKE\<close> flag and \<open>fd_to_name\<close> maps its descriptor to the
  root path. The loop handles the events that come before the first root loss, all
  of them when there is none. \<open>found_path w es i\<close> is the path the loop finds for the
  \<open>i\<close>-th event of \<open>es\<close>: the entry of \<open>fd_to_name\<close> at the call, and nothing when an
  earlier event of \<open>es\<close> carried a removal flag for the same descriptor.
\<close>

definition root_loss :: "KQueueWatcher \<Rightarrow> w_root \<Rightarrow> kevent \<Rightarrow> bool" where
  "root_loss w root e \<longleftrightarrow> is_removal e \<and> fd_to_name w (ident e) = Some (root_path root)"

definition handled :: "KQueueWatcher \<Rightarrow> w_root \<Rightarrow> kevent list \<Rightarrow> kevent list" where
  "handled w root es = takeWhile (\<lambda>e. \<not> root_loss w root e) es"

definition found_path :: "KQueueWatcher \<Rightarrow> kevent list \<Rightarrow> nat \<Rightarrow> w_string option" where
  "found_path w es i =
     (if \<exists>x\<in>set (take i es). is_removal x \<and> ident x = ident (es ! i) then None
      else fd_to_name w (ident (es ! i)))"



section \<open>The in-memory view and the query engine (src/InMemoryView.h, src/watchman_query.h)\<close>

text \<open>
  The two headers declare the data of the view, of a query and of its context, and
  the operations on them; the bodies of the operations are not among the sources.
  The data below follows the headers and the data model of the specification, the
  operations follow the specification's description of each of them.

  A \<open>watchman_file*\<close> is a \<open>file_ptr\<close>, and the view holds the record each pointer
  leads to. The recency list that starts at \<open>latest_file\<close> and the list of each
  suffix are intrusive lists through the file records; each is the list of its
  pointers from its head. A directory owns its files map and its sub-directories, so
  the directories form a tree; a file refers back to its directory by the path of
  the directory from the root directory. The \<open>stat\<close> fields of a file are left out:
  no operation below reads them. A tick is the \<open>uint32_t\<close> of the headers; the
  operations below only compare and copy ticks.
\<close>

type_synonym tick = "32 word"
type_synonym time_t = int
type_synonym file_ptr = nat
type_synonym dir_path = "w_string list"

record watchman_file =
  fname :: w_string
  fparent :: dir_path
  fexists :: bool
  otime_ticks :: tick
  otime_timestamp :: time_t
  ctime_ticks :: tick
  ctime_timestamp :: time_t
  maybe_deleted :: bool

datatype watchman_dir =
  Dir (dfiles: "(w_string \<times> file_ptr) list")
      (dsubdirs: "(w_string \<times> watchman_dir) list")
      (last_check_existed: bool)

record InMemoryView =
  file_store :: "file_ptr \<Rightarrow> watchman_file"
  latest_file :: "file_ptr list"
  suffixes :: "w_string \<rightharpoonup> file_ptr list"
  root_dir :: watchman_dir
  view_root_path :: w_string
  mostRecentTick :: tick
  last_age_out_tick :: tick
  last_age_out_timestamp :: time_t

subsection \<open>Directories by path\<close>




text \<open>
  The files below a directory, its own files first and then, when \<open>recursive\<close> is
  set, those of each sub-directory in turn (depth-first).
\<close>

fun dir_files :: "bool \<Rightarrow> watchman_dir \<Rightarrow> file_ptr list"
  and subdirs_files :: "(w_string \<times> watchman_dir) list \<Rightarrow> file_ptr list" where
  "dir_files recursive (Dir fs subs lce) =
     map snd fs @ (if recursive then subdirs_files subs else [])"
| "subdirs_files [] = []"
| "subdirs_files (nd # rest) = dir_files True (snd nd) @ subdirs_files rest"

subsection \<open>The suffix index\<close>

text \<open>
  Modelled from the spec: the suffix of a file name and the insertion into a suffix
  bucket, whose code is not among the sources. "A file appears in the suffix bucket
  for the lowercase suffix of its name iff that suffix is non-empty [...]"; "Suffix
  index: mapping from lowercase-suffix path key to the head of a per-suffix list.
  Entry created on demand". The suffix is what follows the last dot of the name.
\<close>

definition ascii_tolower :: "char \<Rightarrow> char" where
  "ascii_tolower c =
     (let n = (of_char c :: nat) in if 65 \<le> n \<and> n \<le> 90 then char_of (n + 32) else c)"



subsection \<open>Mutations of the view\<close>






subsection \<open>Queries\<close>

text \<open>
  \<open>w_query_since\<close> with its union written out. A clock-spec is "either a tick string
  [...], a named-cursor string [...], or a Unix timestamp integer". The expression
  of a query is the predicate its \<open>evaluate\<close> computes from the context's \<open>since\<close>, the
  file's wholename and the file; the specification requires it to be pure.
\<close>

record w_query_since =
  is_timestamp :: bool
  since_timestamp :: time_t
  clock_is_fresh_instance :: bool
  clock_ticks :: tick

datatype w_clockspec = Clock_ticks tick | Clock_timestamp time_t | Named_cursor string

datatype watchman_glob_tree =
    Glob_literal w_string "watchman_glob_tree list"
  | Glob_pattern w_string "watchman_glob_tree list"
  | Glob_doublestar "watchman_glob_tree list"

record w_query =
  case_sensitive :: bool
  empty_on_fresh_instance :: bool
  dedup_results :: bool
  relative_root :: "w_string option"
  paths :: "(w_string \<times> int) list"
  glob_tree :: "watchman_glob_tree option"
  glob_flags :: int
  query_suffixes :: "w_string list"
  sync_timeout :: "32 word"
  lock_timeout :: "32 word"
  since_spec :: "w_clockspec option"
  expr :: "w_query_since \<Rightarrow> w_string \<Rightarrow> watchman_file \<Rightarrow> bool"

record watchman_rule_match =
  rm_root_number :: "32 word"
  relname :: w_string
  is_new :: bool
  rm_file :: file_ptr

text \<open>
  The context of a running query: \<open>since\<close>, the results, the dedup set ("effectively a
  set<wholename> of the files held in results") and the counter \<open>num_deduped\<close>. The
  cached wholename and the cached parent path only save recomputation.
\<close>

record w_query_ctx =
  ctx_since :: w_query_since
  ctx_results :: "watchman_rule_match list"
  dedup :: "w_string set"
  num_deduped :: "32 word"

record w_query_result =
  is_fresh_instance :: bool
  results :: "watchman_rule_match list"
  root_number :: "32 word"
  ticks :: tick

datatype lock_result = Lock_acquired | Lock_timeout | Lock_cancelled

datatype query_error = Timeout | Cancelled

text \<open>
  Modelled from the spec: the resolution of the since-spec (\<open>w_clockspec_eval\<close> is not
  among the sources). "Resolve the since-spec against the current root state: if
  named cursor, consult the cursor store to obtain a tick; if tick precedes the last
  age-out tick, the query is a fresh instance - all files since age-out are
  candidates and is_fresh_instance = true in the result." For a fresh instance the
  cut is tick 0, so that every file is a candidate. A query without a since-spec keeps
  the value the constructor of \<open>w_query_since\<close> sets.
\<close>

definition clockspec_tick :: "(string \<Rightarrow> tick) \<Rightarrow> w_clockspec \<Rightarrow> tick option" where
  "clockspec_tick cursors cs =
     (case cs of
        Clock_ticks t \<Rightarrow> Some t
      | Named_cursor nm \<Rightarrow> Some (cursors nm)
      | Clock_timestamp ts \<Rightarrow> None)"

definition w_query_since_init :: w_query_since where
  "w_query_since_init =
     \<lparr>is_timestamp = False, since_timestamp = 0, clock_is_fresh_instance = False,
      clock_ticks = 0\<rparr>"

definition resolve_since ::
  "(string \<Rightarrow> tick) \<Rightarrow> InMemoryView \<Rightarrow> w_clockspec option \<Rightarrow> w_query_since" where
  "resolve_since cursors v spec =
     (case spec of
        None \<Rightarrow> w_query_since_init
      | Some cs \<Rightarrow>
          (case clockspec_tick cursors cs of
             None \<Rightarrow>
               (case cs of
                  Clock_timestamp ts \<Rightarrow> w_query_since_init\<lparr>is_timestamp := True, since_timestamp := ts\<rparr>
                | _ \<Rightarrow> w_query_since_init)
           | Some t \<Rightarrow>
               if t < last_age_out_tick v
               then w_query_since_init\<lparr>clock_is_fresh_instance := True, clock_ticks := 0\<rparr>
               else w_query_since_init\<lparr>clock_ticks := t\<rparr>))"

text \<open>
  Modelled from the spec: the bodies of \<open>suffixGenerator\<close> and \<open>allFilesGenerator\<close>,
  which are not among the sources. "suffix_generator: for each suffix in the query's
  suffix set, walk that suffix's per-suffix linked list"; "all_files_generator: walks
  the entire tree depth-first."
\<close>

definition suffixGenerator :: "InMemoryView \<Rightarrow> w_query \<Rightarrow> file_ptr list" where
  "suffixGenerator v q =
     concat (map (\<lambda>s. case suffixes v s of None \<Rightarrow> [] | Some l \<Rightarrow> l) (query_suffixes q))"

definition allFilesGenerator :: "InMemoryView \<Rightarrow> file_ptr list" where
  "allFilesGenerator v = dir_files True (root_dir v)"

text \<open>
  Modelled from the spec: the choice of the generator (the body of
  \<open>w_query_execute\<close> is not among the sources). "If paths is non-empty: path_generator;
  else if glob_tree is present: glob_generator; else if suffixes is non-empty:
  suffix_generator; else if since_spec is present: time_generator; else:
  all_files_generator." The path, the glob and the time generator are an argument of
  the execution, \<open>gens\<close>: nothing below depends on the files they yield.
\<close>

datatype generator_kind =
  Path_generator | Glob_generator | Suffix_generator | Time_generator | All_files_generator

definition choose_generator :: "w_query \<Rightarrow> generator_kind" where
  "choose_generator q =
     (if paths q \<noteq> [] then Path_generator
      else if glob_tree q \<noteq> None then Glob_generator
      else if query_suffixes q \<noteq> [] then Suffix_generator
      else if since_spec q \<noteq> None then Time_generator
      else All_files_generator)"

type_synonym query_generator = "InMemoryView \<Rightarrow> w_query \<Rightarrow> w_query_since \<Rightarrow> file_ptr list"

definition generate ::
  "(generator_kind \<Rightarrow> query_generator) \<Rightarrow> InMemoryView \<Rightarrow> w_query \<Rightarrow> w_query_since
     \<Rightarrow> file_ptr list" where
  "generate gens v q since =
     (case choose_generator q of
        Path_generator \<Rightarrow> gens Path_generator v q since
      | Glob_generator \<Rightarrow> gens Glob_generator v q since
      | Suffix_generator \<Rightarrow> suffixGenerator v q
      | Time_generator \<Rightarrow> gens Time_generator v q since
      | All_files_generator \<Rightarrow> allFilesGenerator v)"

text \<open>
  Modelled from the spec: the wholename of a file and the relative-root filter
  (\<open>w_query_ctx_get_wholename\<close> and \<open>w_query_file_matches_relative_root\<close> are only
  declared). "Wholename: full path of a file within its root"; "Apply relative-root
  filter: file must lie under relative_root (case-folded if case-insensitive)." The
  name of a match is the wholename without the relative root, or without the root
  path when the query has no relative root.
\<close>

definition dir_full_path :: "w_string \<Rightarrow> dir_path \<Rightarrow> w_string" where
  "dir_full_path root p = foldl w_dir_path_cat_str root p"

definition wholename :: "InMemoryView \<Rightarrow> watchman_file \<Rightarrow> w_string" where
  "wholename v f = w_dir_path_cat_str (dir_full_path (view_root_path v) (fparent f)) (fname f)"

definition fold_case :: "w_query \<Rightarrow> w_string \<Rightarrow> w_string" where
  "fold_case q s = (if case_sensitive q then s else map ascii_tolower s)"

definition w_query_file_matches_relative_root ::
  "w_query \<Rightarrow> InMemoryView \<Rightarrow> watchman_file \<Rightarrow> bool" where
  "w_query_file_matches_relative_root q v f =
     (case relative_root q of
        None \<Rightarrow> True
      | Some rr \<Rightarrow>
          (let parent = fold_case q (dir_full_path (view_root_path v) (fparent f));
               rrs = fold_case q (rr @ ''/'')
           in parent = fold_case q rr \<or> take (length rrs) parent = rrs))"

definition match_relname :: "w_query \<Rightarrow> InMemoryView \<Rightarrow> watchman_file \<Rightarrow> w_string" where
  "match_relname q v f =
     (let base = (case relative_root q of None \<Rightarrow> view_root_path v | Some rr \<Rightarrow> rr)
      in drop (length base + 1) (wholename v f))"

text \<open>
  Modelled from the spec: the body of \<open>w_query_process_file\<close>, which is only declared.
  "a. Apply relative-root filter [...] b. Evaluate the expression; if false, skip.
  c. Compute wholename; if dedup is on, check the dedup set; if present, increment
  num_deduped and skip. d. Append a RuleMatch (root_number, relname, is_new, file) to
  results, where is_new iff file.ctime.tick > since.ticks." The dedup set is the "dedup
  set of wholenames already emitted": an emitted wholename enters it.
\<close>

definition candidate_passes :: "w_query \<Rightarrow> InMemoryView \<Rightarrow> w_query_since \<Rightarrow> file_ptr \<Rightarrow> bool" where
  "candidate_passes q v since f \<longleftrightarrow>
     w_query_file_matches_relative_root q v (file_store v f)
     \<and> expr q since (wholename v (file_store v f)) (file_store v f)"

definition w_query_process_file ::
  "32 word \<Rightarrow> w_query \<Rightarrow> InMemoryView \<Rightarrow> file_ptr \<Rightarrow> w_query_ctx \<Rightarrow> w_query_ctx" where
  "w_query_process_file rn q v f ctx =
     (let fl = file_store v f in
      if \<not> w_query_file_matches_relative_root q v fl then ctx
      else if \<not> expr q (ctx_since ctx) (wholename v fl) fl then ctx
      else
        let wn = wholename v fl in
        if dedup_results q \<and> wn \<in> dedup ctx then ctx\<lparr>num_deduped := num_deduped ctx + 1\<rparr>
        else
          ctx\<lparr>dedup := (if dedup_results q then insert wn (dedup ctx) else dedup ctx),
              ctx_results := ctx_results ctx @
                [\<lparr>rm_root_number = rn, relname = match_relname q v fl,
                  is_new = (clock_ticks (ctx_since ctx) < ctime_ticks fl), rm_file = f\<rparr>]\<rparr>)"

definition w_query_ctx_init :: "w_query_since \<Rightarrow> w_query_ctx" where
  "w_query_ctx_init since =
     \<lparr>ctx_since = since, ctx_results = [], dedup = {}, num_deduped = 0\<rparr>"

text \<open>
  Modelled from the spec: the body of \<open>w_query_execute\<close>, which is only declared.
  "1. Resolve the since-spec [...] If empty_on_fresh_instance is set, return an empty
  result set. 2. Acquire shared lock. 3. Choose a generator [...] 4. For each
  candidate file, invoke process_file [...] 5. Release lock; return
  (is_fresh_instance, results, ticks = mostRecentTick)." The acquisition "may fail
  with Timeout" or, for a cancelled root, with \<open>Cancelled\<close>; its outcome is an argument.
  \<open>w_query_run\<close> is the context after steps 3 and 4.
\<close>

definition w_query_run ::
  "(generator_kind \<Rightarrow> query_generator) \<Rightarrow> 32 word \<Rightarrow> w_query \<Rightarrow> InMemoryView
     \<Rightarrow> w_query_since \<Rightarrow> w_query_ctx" where
  "w_query_run gens rn q v since =
     fold (w_query_process_file rn q v) (generate gens v q since) (w_query_ctx_init since)"

definition w_query_execute ::
  "(generator_kind \<Rightarrow> query_generator) \<Rightarrow> (string \<Rightarrow> tick) \<Rightarrow> lock_result \<Rightarrow> 32 word
     \<Rightarrow> w_query \<Rightarrow> InMemoryView \<Rightarrow> query_error + w_query_result" where
  "w_query_execute gens cursors lk rn q v =
     (let since = resolve_since cursors v (since_spec q);
          fresh = (\<not> is_timestamp since \<and> clock_is_fresh_instance since)
      in if fresh \<and> empty_on_fresh_instance q
         then Inr \<lparr>is_fresh_instance = True, results = [], root_number = rn,
                   ticks = mostRecentTick v\<rparr>
         else
           (case lk of
              Lock_timeout \<Rightarrow> Inl Timeout
            | Lock_cancelled \<Rightarrow> Inl Cancelled
            | Lock_acquired \<Rightarrow>
                Inr \<lparr>is_fresh_instance = fresh,
                     results = ctx_results (w_query_run gens rn q v since),
                     root_number = rn, ticks = mostRecentTick v\<rparr>))"

subsection \<open>The invariant of the recency list\<close>




subsection \<open>A small view and a query for the examples\<close>

text \<open>
  The root \<open>/r\<close> holds \<open>a.txt\<close> (deleted, tick 5, seen at second 10), \<open>b.txt\<close> (existing,
  tick 3, seen at second 5) and the directory \<open>d\<close> with \<open>c.h\<close> (deleted, tick 2, seen at
  second 4). The query asks for the suffix \<open>txt\<close> twice, with dedup. \<open>no_generator\<close>
  stands in for the path, glob and time generators, which the query does not use.
\<close>

definition ex_file :: "w_string \<Rightarrow> dir_path \<Rightarrow> bool \<Rightarrow> tick \<Rightarrow> time_t \<Rightarrow> watchman_file" where
  "ex_file nm p ex tk ts =
     \<lparr>fname = nm, fparent = p, fexists = ex, otime_ticks = tk, otime_timestamp = ts,
      ctime_ticks = tk, ctime_timestamp = ts, maybe_deleted = False\<rparr>"

definition ex_view :: InMemoryView where
  "ex_view =
     \<lparr>file_store = (\<lambda>f. ex_file [] [] False 0 0)
        (1 := ex_file ''a.txt'' [] False 5 10,
         2 := ex_file ''b.txt'' [] True 3 5,
         3 := ex_file ''c.h'' [''d''] False 2 4),
      latest_file = [1, 2, 3],
      suffixes = [''txt'' \<mapsto> [1, 2], ''h'' \<mapsto> [3]],
      root_dir = Dir [(''a.txt'', 1), (''b.txt'', 2)] [(''d'', Dir [(''c.h'', 3)] [] False)] True,
      view_root_path = ''/r'',
      mostRecentTick = 5,
      last_age_out_tick = 4,
      last_age_out_timestamp = 0\<rparr>"

definition ex_query :: w_query where
  "ex_query =
     \<lparr>case_sensitive = True, empty_on_fresh_instance = False, dedup_results = True,
      relative_root = None, paths = [], glob_tree = None, glob_flags = 0,
      query_suffixes = [''txt'', ''txt''], sync_timeout = 0, lock_timeout = 0,
      since_spec = None, expr = (\<lambda>since wn f. True)\<rparr>"

definition no_generator :: "generator_kind \<Rightarrow> query_generator" where
  "no_generator k v q since = []"


section \<open>Properties of the kqueue watcher\<close>

subsection \<open>What each operation does to the fields of the state\<close>

lemma fd_to_name_ops [simp]:
  "fd_to_name (sys_open d w) = fd_to_name w"
  "fd_to_name (sys_close d w) = fd_to_name w"
  "fd_to_name (kevent_add d w) = fd_to_name w"
  "fd_to_name (kevent_delete d w) = fd_to_name w"
  "fd_to_name (w_dir_opened h w) = fd_to_name w"
  "fd_to_name (w_dir_close h w) = fd_to_name w"
  "fd_to_name (name_to_fd_replace k d w) = fd_to_name w"
  "fd_to_name (name_to_fd_del k w) = fd_to_name w"
  "fd_to_name (fd_to_name_replace d k w) = (fd_to_name w)(d \<mapsto> k)"
  "fd_to_name (fd_to_name_del d w) = (fd_to_name w)(d := None)"
  by (simp_all add: sys_open_def sys_close_def kevent_add_def kevent_delete_def
      w_dir_opened_def w_dir_close_def name_to_fd_replace_def name_to_fd_del_def
      fd_to_name_replace_def fd_to_name_del_def kqueue_del_key_def Let_def
      split: option.splits)

lemma name_to_fd_ops [simp]:
  "name_to_fd (sys_open d w) = name_to_fd w"
  "name_to_fd (sys_close d w) = name_to_fd w"
  "name_to_fd (kevent_add d w) = name_to_fd w"
  "name_to_fd (kevent_delete d w) = name_to_fd w"
  "name_to_fd (w_dir_opened h w) = name_to_fd w"
  "name_to_fd (w_dir_close h w) = name_to_fd w"
  "name_to_fd (name_to_fd_replace k d w) = (name_to_fd w)(k \<mapsto> d)"
  "name_to_fd (name_to_fd_del k w) = (name_to_fd w)(k := None)"
  "name_to_fd (fd_to_name_replace d k w) = name_to_fd w"
  "name_to_fd (fd_to_name_del d w) = name_to_fd w"
  by (auto simp add: sys_open_def sys_close_def kevent_add_def kevent_delete_def
      w_dir_opened_def w_dir_close_def name_to_fd_replace_def name_to_fd_del_def
      fd_to_name_replace_def fd_to_name_del_def kqueue_del_key_def Let_def
      split: option.splits)

lemma open_fds_ops [simp]:
  "open_fds (sys_open d w) = insert d (open_fds w)"
  "open_fds (sys_close d w) = open_fds w - {d}"
  "open_fds (kevent_add d w) = open_fds w"
  "open_fds (kevent_delete d w) = open_fds w"
  "open_fds (w_dir_opened h w) = open_fds w"
  "open_fds (w_dir_close h w) = open_fds w"
  "open_fds (name_to_fd_replace k d w) = open_fds w - set_option (name_to_fd w k)"
  "open_fds (name_to_fd_del k w) = open_fds w - set_option (name_to_fd w k)"
  "open_fds (fd_to_name_replace d k w) = open_fds w"
  "open_fds (fd_to_name_del d w) = open_fds w"
  by (auto simp add: sys_open_def sys_close_def kevent_add_def kevent_delete_def
      w_dir_opened_def w_dir_close_def name_to_fd_replace_def name_to_fd_del_def
      fd_to_name_replace_def fd_to_name_del_def kqueue_del_key_def Let_def
      split: option.splits)

lemma kq_registered_ops [simp]:
  "kq_registered (sys_open d w) = kq_registered w"
  "kq_registered (sys_close d w) = kq_registered w - {d}"
  "kq_registered (kevent_add d w) = insert d (kq_registered w)"
  "kq_registered (kevent_delete d w) = kq_registered w - {d}"
  "kq_registered (w_dir_opened h w) = kq_registered w"
  "kq_registered (w_dir_close h w) = kq_registered w"
  "kq_registered (name_to_fd_replace k d w) = kq_registered w - set_option (name_to_fd w k)"
  "kq_registered (name_to_fd_del k w) = kq_registered w - set_option (name_to_fd w k)"
  "kq_registered (fd_to_name_replace d k w) = kq_registered w"
  "kq_registered (fd_to_name_del d w) = kq_registered w"
  by (auto simp add: sys_open_def sys_close_def kevent_add_def kevent_delete_def
      w_dir_opened_def w_dir_close_def name_to_fd_replace_def name_to_fd_del_def
      fd_to_name_replace_def fd_to_name_del_def kqueue_del_key_def Let_def
      split: option.splits)

lemma open_dirs_ops [simp]:
  "open_dirs (sys_open d w) = open_dirs w"
  "open_dirs (sys_close d w) = open_dirs w"
  "open_dirs (kevent_add d w) = open_dirs w"
  "open_dirs (kevent_delete d w) = open_dirs w"
  "open_dirs (w_dir_opened h w) = insert h (open_dirs w)"
  "open_dirs (w_dir_close h w) = open_dirs w - {h}"
  "open_dirs (name_to_fd_replace k d w) = open_dirs w"
  "open_dirs (name_to_fd_del k w) = open_dirs w"
  "open_dirs (fd_to_name_replace d k w) = open_dirs w"
  "open_dirs (fd_to_name_del d w) = open_dirs w"
  by (auto simp add: sys_open_def sys_close_def kevent_add_def kevent_delete_def
      w_dir_opened_def w_dir_close_def name_to_fd_replace_def name_to_fd_del_def
      fd_to_name_replace_def fd_to_name_del_def kqueue_del_key_def Let_def
      split: option.splits)

subsection \<open>startWatchFile\<close>

text \<open>
  Claim C10. \<open>startWatchFile\<close> returns false only when opening the file fails: it
  returns false exactly when the full name is not yet in \<open>name_to_fd\<close> and \<open>open\<close>
  returns \<open>-1\<close>. When the full name is already in \<open>name_to_fd\<close> it returns true and
  leaves the whole state as it was (nothing opened, nothing registered). When the
  open succeeds and the \<open>kevent\<close> registration fails it returns true with the
  descriptor closed and not registered, and with the two entries it had just added
  gone from both tables.
\<close>

theorem startWatchFile_result:
  "(\<not> fst (startWatchFile f oret kret w) \<longleftrightarrow>
            name_to_fd w (w_dir_path_cat_str (parent_path f) (file_name f)) = None \<and> oret = - 1)
       \<and> (name_to_fd w (w_dir_path_cat_str (parent_path f) (file_name f)) \<noteq> None \<longrightarrow>
            startWatchFile f oret kret w = (True, w))
       \<and> (name_to_fd w (w_dir_path_cat_str (parent_path f) (file_name f)) = None
            \<and> oret \<noteq> - 1 \<and> kret \<noteq> 0 \<longrightarrow>
            (case startWatchFile f oret kret w of (r, w') \<Rightarrow>
               r \<and> oret \<notin> open_fds w' \<and> oret \<notin> kq_registered w'
               \<and> name_to_fd w' (w_dir_path_cat_str (parent_path f) (file_name f)) = None
               \<and> fd_to_name w' oret = None
               \<and> name_to_fd w' = name_to_fd w))"
  by (auto simp add: startWatchFile_def Let_def)

text \<open>
  The three cases at a watcher that already watches \<open>/r/a\<close>: watching \<open>/r/a\<close> again,
  a failing \<open>open\<close> of \<open>/r/b\<close>, and a failing registration of \<open>/r/b\<close>.
\<close>

theorem startWatchFile_result_witness:
  "startWatchFile \<lparr>parent_path = ''/r'', file_name = ''a''\<rparr> 8 0
     \<lparr>name_to_fd = [''/r/a'' \<mapsto> 4], fd_to_name = [4 \<mapsto> ''/r/a''],
      open_fds = {4}, open_dirs = {}, kq_registered = {4}\<rparr>
   = (True, \<lparr>name_to_fd = [''/r/a'' \<mapsto> 4], fd_to_name = [4 \<mapsto> ''/r/a''],
      open_fds = {4}, open_dirs = {}, kq_registered = {4}\<rparr>)
   \<and> \<not> fst (startWatchFile \<lparr>parent_path = ''/r'', file_name = ''b''\<rparr> (- 1) 0
     \<lparr>name_to_fd = [''/r/a'' \<mapsto> 4], fd_to_name = [4 \<mapsto> ''/r/a''],
      open_fds = {4}, open_dirs = {}, kq_registered = {4}\<rparr>)
   \<and> (case startWatchFile \<lparr>parent_path = ''/r'', file_name = ''b''\<rparr> 8 (- 1)
     \<lparr>name_to_fd = [''/r/a'' \<mapsto> 4], fd_to_name = [4 \<mapsto> ''/r/a''],
      open_fds = {4}, open_dirs = {}, kq_registered = {4}\<rparr> of (r, w') \<Rightarrow>
        r \<and> 8 \<notin> open_fds w' \<and> 8 \<notin> kq_registered w'
        \<and> name_to_fd w' ''/r/b'' = None \<and> fd_to_name w' 8 = None)"
  using startWatchFile_result
    [where f = "\<lparr>parent_path = ''/r'', file_name = ''a''\<rparr>" and oret = 8 and kret = 0
       and w = "\<lparr>name_to_fd = [''/r/a'' \<mapsto> 4], fd_to_name = [4 \<mapsto> ''/r/a''],
      open_fds = {4}, open_dirs = {}, kq_registered = {4}\<rparr>"]
    startWatchFile_result
    [where f = "\<lparr>parent_path = ''/r'', file_name = ''b''\<rparr>" and oret = "- 1" and kret = 0
       and w = "\<lparr>name_to_fd = [''/r/a'' \<mapsto> 4], fd_to_name = [4 \<mapsto> ''/r/a''],
      open_fds = {4}, open_dirs = {}, kq_registered = {4}\<rparr>"]
    startWatchFile_result
    [where f = "\<lparr>parent_path = ''/r'', file_name = ''b''\<rparr>" and oret = 8 and kret = "- 1"
       and w = "\<lparr>name_to_fd = [''/r/a'' \<mapsto> 4], fd_to_name = [4 \<mapsto> ''/r/a''],
      open_fds = {4}, open_dirs = {}, kq_registered = {4}\<rparr>"]
  by (auto simp add: w_dir_path_cat_str_def)

subsection \<open>startWatchDir\<close>

text \<open>
  Claim C8. When \<open>w_dir_open\<close> and \<open>open\<close> both succeed, both \<open>fstat\<close> calls succeed
  and the two handles differ in device or inode (the directory was replaced between
  the two calls), \<open>startWatchDir\<close> calls the error handler (\<open>handle_open_errno\<close> with
  \<open>open\<close> and \<open>ENOTDIR\<close>), closes the descriptor and the directory stream, returns
  null and leaves \<open>name_to_fd\<close> and \<open>fd_to_name\<close> as they were.
\<close>

theorem startWatchDir_replaced:
  assumes "opendir_ret os = Some osdir" and "open_ret os \<noteq> - 1"
    and "fstat_newwd os = Some st" and "fstat_osdir os = Some osdirst"
    and "st_dev st \<noteq> st_dev osdirst \<or> st_ino st \<noteq> st_ino osdirst"
  shows "case startWatchDir dir_name os (w, root) of (r, w', root') \<Rightarrow>
           r = None
         \<and> open_errno_calls root' = open_errno_calls root @ [(''open'', ENOTDIR)]
         \<and> osdir \<notin> open_dirs w' \<and> open_ret os \<notin> open_fds w'
         \<and> name_to_fd w' = name_to_fd w \<and> fd_to_name w' = fd_to_name w"
  using assms by (auto simp add: startWatchDir_def Let_def handle_open_errno_def)

text \<open>A directory whose two handles report inodes 200 and 100.\<close>

theorem startWatchDir_replaced_witness:
  "startWatchDir ''/r/d''
     \<lparr>opendir_ret = Some 7, opendir_errno = 0, open_ret = 8, open_errno = 0,
      fstat_newwd = Some \<lparr>st_dev = 1, st_ino = 200\<rparr>,
      fstat_osdir = Some \<lparr>st_dev = 1, st_ino = 100\<rparr>, kevent_ret = 0\<rparr>
     (\<lparr>name_to_fd = [''/r'' \<mapsto> 3], fd_to_name = [3 \<mapsto> ''/r''],
       open_fds = {3}, open_dirs = {}, kq_registered = {3}\<rparr>,
      \<lparr>root_path = ''/r'', cancelled = False, recrawl_reasons = [], open_errno_calls = []\<rparr>)
   = (None,
      \<lparr>name_to_fd = [''/r'' \<mapsto> 3], fd_to_name = [3 \<mapsto> ''/r''],
       open_fds = {3}, open_dirs = {}, kq_registered = {3}\<rparr>,
      \<lparr>root_path = ''/r'', cancelled = False, recrawl_reasons = [],
       open_errno_calls = [(''open'', 20)]\<rparr>)"
  using startWatchDir_replaced
    [where os = "\<lparr>opendir_ret = Some 7, opendir_errno = 0, open_ret = 8, open_errno = 0,
      fstat_newwd = Some \<lparr>st_dev = 1, st_ino = 200\<rparr>,
      fstat_osdir = Some \<lparr>st_dev = 1, st_ino = 100\<rparr>, kevent_ret = 0\<rparr>"
      and osdir = 7 and st = "\<lparr>st_dev = 1, st_ino = 200\<rparr>"
      and osdirst = "\<lparr>st_dev = 1, st_ino = 100\<rparr>"
      and dir_name = "''/r/d''"
      and w = "\<lparr>name_to_fd = [''/r'' \<mapsto> 3], fd_to_name = [3 \<mapsto> ''/r''],
       open_fds = {3}, open_dirs = {}, kq_registered = {3}\<rparr>"
      and root = "\<lparr>root_path = ''/r'', cancelled = False, recrawl_reasons = [],
                    open_errno_calls = []\<rparr>"]
  by (simp add: startWatchDir_def ENOTDIR_def handle_open_errno_def sys_open_def sys_close_def
      w_dir_opened_def w_dir_close_def)

subsection \<open>consumeNotify: the loop over the delivered events\<close>

text \<open>
  The loop is left early exactly when a delivered event is a root loss, and then
  with the root cancelled. The pending collection and the state of the watcher after
  the loop are given below in terms of the tables at the call: the events the loop
  handles, the path it finds for each, and the watches it removes.
\<close>

lemma consume_events_returns:
  "fst (consume_events tv es (w, root, coll)) \<longleftrightarrow>
     \<not> (\<exists>e\<in>set es. is_removal e \<and> fd_to_name w (ident e) = Some (root_path root))"
proof (induction es arbitrary: w coll)
  case Nil
  then show ?case by simp
next
  case (Cons e es)
  show ?case
  proof (cases "fd_to_name w (ident e)")
    case None
    then show ?thesis using Cons.IH [of w coll] by auto
  next
    case (Some path)
    show ?thesis
    proof (cases "is_removal e")
      case False
      then show ?thesis
        using Some Cons.IH [of w "w_pending_coll_add coll path tv (notify_flags e)"] by auto
    next
      case True
      show ?thesis
      proof (cases "path = root_path root")
        case True
        with Some \<open>is_removal e\<close> show ?thesis by auto
      next
        case False
        with Some \<open>is_removal e\<close> show ?thesis
          using Cons.IH [of "fd_to_name_del (ident e) (name_to_fd_del path (kevent_delete (ident e) w))"
              "w_pending_coll_add coll path tv (notify_flags e)"]
          by auto
      qed
    qed
  qed
qed

lemma consume_events_root:
  "consume_events tv es (w, root, coll) = (b, w', root', coll') \<Longrightarrow>
     root' = (if b then root else w_root_cancel root)"
proof (induction es arbitrary: w coll)
  case Nil
  then show ?case by simp
next
  case (Cons e es)
  then show ?case
    by (cases "fd_to_name w (ident e)") (auto split: if_splits)
qed

lemma root_loss_after_removal:
  assumes "fd_to_name w (ident e) = Some path" and "path \<noteq> root_path root"
  shows "root_loss (fd_to_name_del (ident e) (name_to_fd_del path (kevent_delete (ident e) w))) root x
           = root_loss w root x"
  using assms by (auto simp add: root_loss_def)

lemma handled_after_removal:
  assumes "fd_to_name w (ident e) = Some path" and "path \<noteq> root_path root"
  shows "handled (fd_to_name_del (ident e) (name_to_fd_del path (kevent_delete (ident e) w))) root es
           = handled w root es"
  by (simp add: handled_def root_loss_after_removal [OF assms])

lemma map_filter_upt_Suc:
  "List.map_filter f [0..<Suc n]
     = (case f 0 of None \<Rightarrow> [] | Some y \<Rightarrow> [y]) @ List.map_filter (\<lambda>i. f (Suc i)) [0..<n]"
proof -
  have "[0..<Suc n] = 0 # map Suc [0..<n]"
    by (simp add: upt_conv_Cons map_Suc_upt del: upt_Suc)
  moreover have "List.map_filter f (map Suc xs) = List.map_filter (\<lambda>i. f (Suc i)) xs" for xs
    by (induction xs) (simp_all add: map_filter_simps split: option.splits)
  ultimately show ?thesis by (simp add: map_filter_simps split: option.splits)
qed

lemma found_path_Cons:
  "found_path w (e # es) 0 = fd_to_name w (ident e)"
  "found_path w (e # es) (Suc i) =
     (if is_removal e \<and> ident e = ident (es ! i) then None else found_path w es i)"
  by (auto simp add: found_path_def)

lemma map_filter_cong_set:
  "\<forall>x\<in>set xs. f x = g x \<Longrightarrow> List.map_filter f xs = List.map_filter g xs"
  by (induction xs) (auto simp add: map_filter_simps split: option.splits)

lemma map_filter_cong_upt:
  "(\<And>i. i < n \<Longrightarrow> f i = g i) \<Longrightarrow> List.map_filter f [0..<n] = List.map_filter g [0..<n]"
  by (rule map_filter_cong_set) simp

lemma consume_events_coll:
  "snd (snd (snd (consume_events tv es (w, root, coll)))) =
     coll @ List.map_filter
       (\<lambda>i. map_option
          (\<lambda>p. \<lparr>pending_path = p, pending_now = tv,
                pending_flags = notify_flags (handled w root es ! i)\<rparr>)
          (found_path w (handled w root es) i))
       [0..<length (handled w root es)]"
proof (induction es arbitrary: w coll)
  case Nil
  then show ?case by (simp add: handled_def map_filter_simps)
next
  case (Cons e es)
  let ?entry = "\<lambda>x p. \<lparr>pending_path = p, pending_now = tv, pending_flags = notify_flags x\<rparr>"
  show ?case
  proof (cases "fd_to_name w (ident e)")
    case None
    then have nl: "\<not> root_loss w root e" by (simp add: root_loss_def)
    have "List.map_filter
            (\<lambda>i. map_option (?entry (handled w root es ! i))
               (found_path w (e # handled w root es) (Suc i))) [0..<length (handled w root es)]
        = List.map_filter
            (\<lambda>i. map_option (?entry (handled w root es ! i))
               (found_path w (handled w root es) i)) [0..<length (handled w root es)]"
    proof (rule map_filter_cong_upt)
      fix i
      have "found_path w (handled w root es) i = None" if "ident e = ident (handled w root es ! i)"
        using None that by (simp add: found_path_def)
      then show "map_option (?entry (handled w root es ! i))
               (found_path w (e # handled w root es) (Suc i))
          = map_option (?entry (handled w root es ! i)) (found_path w (handled w root es) i)"
        by (simp add: found_path_Cons)
    qed
    then show ?thesis
      using None nl Cons.IH [of w coll]
      by (simp add: handled_def map_filter_upt_Suc found_path_Cons del: upt_Suc)
  next
    case (Some path)
    show ?thesis
    proof (cases "is_removal e")
      case False
      then have nl: "\<not> root_loss w root e" by (simp add: root_loss_def)
      show ?thesis
        using Some False nl Cons.IH [of w "w_pending_coll_add coll path tv (notify_flags e)"]
        by (simp add: handled_def map_filter_upt_Suc found_path_Cons w_pending_coll_add_def
            del: upt_Suc)
    next
      case True
      show ?thesis
      proof (cases "path = root_path root")
        case True
        with Some \<open>is_removal e\<close> have "root_loss w root e" by (simp add: root_loss_def)
        with Some \<open>is_removal e\<close> True show ?thesis
          by (simp add: handled_def map_filter_simps)
      next
        case False
        let ?w1 = "fd_to_name_del (ident e) (name_to_fd_del path (kevent_delete (ident e) w))"
        from Some False have nl: "\<not> root_loss w root e" by (simp add: root_loss_def)
        have h: "handled ?w1 root es = handled w root es"
          by (rule handled_after_removal [OF Some False])
        have "List.map_filter
            (\<lambda>i. map_option (?entry (handled w root es ! i))
               (found_path w (e # handled w root es) (Suc i))) [0..<length (handled w root es)]
          = List.map_filter
            (\<lambda>i. map_option (?entry (handled w root es ! i))
               (found_path ?w1 (handled w root es) i)) [0..<length (handled w root es)]"
          by (rule map_filter_cong_upt) (auto simp add: found_path_Cons found_path_def True)
        then show ?thesis
          using Some True False nl
            Cons.IH [of ?w1 "w_pending_coll_add coll path tv (notify_flags e)"]
          by (simp add: h handled_def [of w] map_filter_upt_Suc found_path_Cons
              w_pending_coll_add_def del: upt_Suc)
      qed
    qed
  qed
qed

lemma removed_step_kq:
  fixes f :: "'a \<rightharpoonup> 'b" and g :: "'b \<rightharpoonup> 'a"
  assumes "f i = Some path"
  shows "insert i (set_option (g path) \<union>
           {d. \<exists>x\<in>S. P x \<and> (\<exists>p. (f(i := None)) (k x) = Some p
                  \<and> (d = k x \<or> (g(path := None)) p = Some d))})
       = {d. (\<exists>p. f i = Some p \<and> (d = i \<or> g p = Some d))
             \<or> (\<exists>x\<in>S. P x \<and> (\<exists>p. f (k x) = Some p \<and> (d = k x \<or> g p = Some d)))}"
  (is "?L = ?R")
proof (rule set_eqI)
  fix d
  show "d \<in> ?L \<longleftrightarrow> d \<in> ?R"
  proof
    assume "d \<in> ?L"
    then consider "d = i" | "g path = Some d"
      | x p where "x \<in> S" "P x" "(f(i := None)) (k x) = Some p"
          "d = k x \<or> (g(path := None)) p = Some d"
      by auto
    then show "d \<in> ?R"
    proof cases
      case 1 then show ?thesis using assms by simp
    next
      case 2 then show ?thesis using assms by simp
    next
      case 3
      then have "k x \<noteq> i" "f (k x) = Some p" by (auto split: if_splits)
      moreover from 3 have "d = k x \<or> g p = Some d" by (auto split: if_splits)
      ultimately show ?thesis using 3(1,2) by blast
    qed
  next
    assume "d \<in> ?R"
    then consider "d = i" | "g path = Some d"
      | x p where "x \<in> S" "P x" "f (k x) = Some p" "d = k x \<or> g p = Some d"
      using assms by auto
    then show "d \<in> ?L"
    proof cases
      case 1 then show ?thesis by simp
    next
      case 2 then show ?thesis by simp
    next
      case 3
      show ?thesis
      proof (cases "k x = i")
        case True
        with 3 assms have "p = path" by simp
        with 3 True show ?thesis by auto
      next
        case False
        show ?thesis
        proof (cases "p = path")
          case True
          with 3 False show ?thesis by auto
        next
          case pf: False
          from 3 False pf have "(f(i := None)) (k x) = Some p"
            "d = k x \<or> (g(path := None)) p = Some d" by auto
          with 3(1,2) show ?thesis by blast
        qed
      qed
    qed
  qed
qed

lemma removed_step_open:
  fixes f :: "'a \<rightharpoonup> 'b" and g :: "'b \<rightharpoonup> 'a"
  assumes "f i = Some path"
  shows "set_option (g path) \<union>
           {d. \<exists>x\<in>S. P x \<and> (\<exists>p. (f(i := None)) (k x) = Some p
                  \<and> (g(path := None)) p = Some d)}
       = {d. (\<exists>p. f i = Some p \<and> g p = Some d)
             \<or> (\<exists>x\<in>S. P x \<and> (\<exists>p. f (k x) = Some p \<and> g p = Some d))}"
  (is "?L = ?R")
proof (rule set_eqI)
  fix d
  show "d \<in> ?L \<longleftrightarrow> d \<in> ?R"
  proof
    assume "d \<in> ?L"
    then consider "g path = Some d"
      | x p where "x \<in> S" "P x" "(f(i := None)) (k x) = Some p" "(g(path := None)) p = Some d"
      by auto
    then show "d \<in> ?R"
    proof cases
      case 1 then show ?thesis using assms by simp
    next
      case 2
      then have "f (k x) = Some p" "g p = Some d" by (auto split: if_splits)
      then show ?thesis using 2(1,2) by blast
    qed
  next
    assume "d \<in> ?R"
    then consider "g path = Some d"
      | x p where "x \<in> S" "P x" "f (k x) = Some p" "g p = Some d"
      using assms by auto
    then show "d \<in> ?L"
    proof cases
      case 1 then show ?thesis by simp
    next
      case 2
      show ?thesis
      proof (cases "p = path")
        case True
        with 2 show ?thesis by auto
      next
        case False
        with 2 assms have "k x \<noteq> i" by auto
        with 2 False have "(f(i := None)) (k x) = Some p" "(g(path := None)) p = Some d" by auto
        with 2(1,2) show ?thesis by blast
      qed
    qed
  qed
qed

lemma handled_Cons:
  "handled w root (e # es) = (if root_loss w root e then [] else e # handled w root es)"
  by (simp add: handled_def)

lemma consume_events_tables:
  "consume_events tv es (w, root, coll) = (b, w', root', coll') \<Longrightarrow>
     (\<forall>d. fd_to_name w' d =
        (if \<exists>e\<in>set (handled w root es). is_removal e \<and> ident e = d then None
         else fd_to_name w d))
   \<and> (\<forall>k. name_to_fd w' k =
        (if \<exists>e\<in>set (handled w root es). is_removal e \<and> fd_to_name w (ident e) = Some k
         then None else name_to_fd w k))
   \<and> kq_registered w' = kq_registered w -
        {d. \<exists>e\<in>set (handled w root es). is_removal e \<and>
              (\<exists>p. fd_to_name w (ident e) = Some p \<and> (d = ident e \<or> name_to_fd w p = Some d))}
   \<and> open_fds w' = open_fds w -
        {d. \<exists>e\<in>set (handled w root es). is_removal e \<and>
              (\<exists>p. fd_to_name w (ident e) = Some p \<and> name_to_fd w p = Some d)}
   \<and> open_dirs w' = open_dirs w"
proof (induction es arbitrary: w coll)
  case Nil
  then show ?case by (simp add: handled_def)
next
  case (Cons e es)
  show ?case
  proof (cases "fd_to_name w (ident e)")
    case None
    then have nl: "\<not> root_loss w root e" by (simp add: root_loss_def)
    from None Cons.prems have "consume_events tv es (w, root, coll) = (b, w', root', coll')"
      by simp
    from Cons.IH [OF this] show ?thesis
      using None nl by (auto simp add: handled_Cons)
  next
    case (Some path)
    show ?thesis
    proof (cases "is_removal e")
      case False
      then have nl: "\<not> root_loss w root e" by (simp add: root_loss_def)
      from Some False Cons.prems have
        "consume_events tv es (w, root, w_pending_coll_add coll path tv (notify_flags e))
           = (b, w', root', coll')" by simp
      from Cons.IH [OF this] show ?thesis
        using False nl by (auto simp add: handled_Cons)
    next
      case True
      show ?thesis
      proof (cases "path = root_path root")
        case True
        with Some \<open>is_removal e\<close> have "root_loss w root e" by (simp add: root_loss_def)
        with Some \<open>is_removal e\<close> True Cons.prems show ?thesis
          by (auto simp add: handled_Cons)
      next
        case False
        let ?w1 = "fd_to_name_del (ident e) (name_to_fd_del path (kevent_delete (ident e) w))"
        from Some False have nl: "\<not> root_loss w root e" by (simp add: root_loss_def)
        have h: "handled ?w1 root es = handled w root es"
          by (rule handled_after_removal [OF Some False])
        from Some True False Cons.prems have
          "consume_events tv es (?w1, root, w_pending_coll_add coll path tv (notify_flags e))
             = (b, w', root', coll')" by simp
        note ih = Cons.IH [OF this, unfolded h]
        have a: "\<forall>d. fd_to_name w' d =
           (if \<exists>x\<in>set (handled w root (e # es)). is_removal x \<and> ident x = d then None
            else fd_to_name w d)"
          using ih [THEN conjunct1] True nl by (auto simp add: handled_Cons)
        have b: "\<forall>k. name_to_fd w' k =
           (if \<exists>x\<in>set (handled w root (e # es)). is_removal x \<and> fd_to_name w (ident x) = Some k
            then None else name_to_fd w k)"
          using ih [THEN conjunct2, THEN conjunct1] True nl Some
          by (auto simp add: handled_Cons)
        have c: "kq_registered w' = kq_registered w -
           {d. \<exists>x\<in>set (handled w root (e # es)). is_removal x \<and>
              (\<exists>p. fd_to_name w (ident x) = Some p \<and> (d = ident x \<or> name_to_fd w p = Some d))}"
        proof -
          have "kq_registered w' = kq_registered w -
             insert (ident e) (set_option (name_to_fd w path) \<union>
               {d. \<exists>x\<in>set (handled w root es). is_removal x \<and>
                  (\<exists>p. ((fd_to_name w)(ident e := None)) (ident x) = Some p
                     \<and> (d = ident x \<or> ((name_to_fd w)(path := None)) p = Some d))})"
            using ih [THEN conjunct2, THEN conjunct2, THEN conjunct1] by (simp add: Diff_eq) blast
          also have "\<dots> = kq_registered w -
             {d. (\<exists>p. fd_to_name w (ident e) = Some p \<and> (d = ident e \<or> name_to_fd w p = Some d))
               \<or> (\<exists>x\<in>set (handled w root es). is_removal x \<and>
                  (\<exists>p. fd_to_name w (ident x) = Some p \<and> (d = ident x \<or> name_to_fd w p = Some d)))}"
            by (simp only: removed_step_kq [where f = "fd_to_name w" and i = "ident e" and path = path
                and g = "name_to_fd w" and S = "set (handled w root es)" and P = is_removal
                and k = ident, OF Some])
          also have "\<dots> = kq_registered w -
           {d. \<exists>x\<in>set (handled w root (e # es)). is_removal x \<and>
              (\<exists>p. fd_to_name w (ident x) = Some p \<and> (d = ident x \<or> name_to_fd w p = Some d))}"
            using True nl by (simp add: handled_Cons)
          finally show ?thesis .
        qed
        have d: "open_fds w' = open_fds w -
           {d. \<exists>x\<in>set (handled w root (e # es)). is_removal x \<and>
              (\<exists>p. fd_to_name w (ident x) = Some p \<and> name_to_fd w p = Some d)}"
        proof -
          have "open_fds w' = open_fds w -
             (set_option (name_to_fd w path) \<union>
               {d. \<exists>x\<in>set (handled w root es). is_removal x \<and>
                  (\<exists>p. ((fd_to_name w)(ident e := None)) (ident x) = Some p
                     \<and> ((name_to_fd w)(path := None)) p = Some d)})"
            using ih [THEN conjunct2, THEN conjunct2, THEN conjunct2, THEN conjunct1]
            by (simp add: Diff_eq) blast
          also have "\<dots> = open_fds w -
             {d. (\<exists>p. fd_to_name w (ident e) = Some p \<and> name_to_fd w p = Some d)
               \<or> (\<exists>x\<in>set (handled w root es). is_removal x \<and>
                  (\<exists>p. fd_to_name w (ident x) = Some p \<and> name_to_fd w p = Some d))}"
            by (simp only: removed_step_open [where f = "fd_to_name w" and i = "ident e" and path = path
                and g = "name_to_fd w" and S = "set (handled w root es)" and P = is_removal
                and k = ident, OF Some])
          also have "\<dots> = open_fds w -
           {d. \<exists>x\<in>set (handled w root (e # es)). is_removal x \<and>
              (\<exists>p. fd_to_name w (ident x) = Some p \<and> name_to_fd w p = Some d)}"
            using True nl by (simp add: handled_Cons)
          finally show ?thesis .
        qed
        have e: "open_dirs w' = open_dirs w"
          using ih by simp
        from a b c d e show ?thesis by blast
      qed
    qed
  qed
qed

subsection \<open>consumeNotify: pending entries\<close>

text \<open>
  The path \<open>found_path\<close> gives for an event is the entry the loop finds when it
  reaches the event: after the loop has handled the events before it, \<open>fd_to_name\<close>
  maps the descriptor of the event to that path, or to nothing.
\<close>

lemma takeWhile_take_takeWhile:
  "takeWhile P (take i (takeWhile P xs)) = take i (takeWhile P xs)"
proof (rule takeWhile_eq_all_conv [THEN iffD2], rule ballI)
  fix x assume "x \<in> set (take i (takeWhile P xs))"
  then have "x \<in> set (takeWhile P xs)" by (rule in_set_takeD)
  then show "P x" by (rule set_takeWhileD [THEN conjunct2])
qed

lemma handled_take:
  "handled w root (take i (handled w root es)) = take i (handled w root es)"
  unfolding handled_def by (rule takeWhile_take_takeWhile)

lemma consume_events_sees:
  "fd_to_name (fst (snd (consume_events tv (take i (handled w root es)) (w, root, coll))))
       (ident (handled w root es ! i))
     = found_path w (handled w root es) i"
proof -
  obtain b w' root' coll' where
    r: "consume_events tv (take i (handled w root es)) (w, root, coll) = (b, w', root', coll')"
    by (cases "consume_events tv (take i (handled w root es)) (w, root, coll)")
  from consume_events_tables [OF r, THEN conjunct1]
  have "fd_to_name w' (ident (handled w root es ! i)) =
        (if \<exists>e\<in>set (take i (handled w root es)).
              is_removal e \<and> ident e = ident (handled w root es ! i)
         then None else fd_to_name w (ident (handled w root es ! i)))"
    by (simp only: handled_take)
  then show ?thesis by (simp only: r found_path_def fst_conv snd_conv)
qed

text \<open>
  Claim C5, as amended. The call appends to the pending collection exactly one
  entry for each event its loop handles whose descriptor is in \<open>fd_to_name\<close> when the
  loop reaches the event, in the order of the events, and nothing else. The entry
  carries the path of the descriptor and the time of the call, with the flags
  \<open>RECURSIVE|VIA_NOTIFY\<close> when the directory bit of the event is clear and with no flags
  when it is set. The loop handles the delivered events that come before the first
  delivered event with a DELETE, RENAME or REVOKE flag whose descriptor \<open>fd_to_name\<close>
  maps to the root path, all delivered events when there is none, and no event when
  the root is cancelled at the call. A descriptor is in \<open>fd_to_name\<close> when the loop
  reaches an event if it is there at the call and no earlier event of the delivery
  carried a DELETE, RENAME or REVOKE flag for it: this is the second part of the
  theorem. So a removal event of the root, and every event delivered behind it, adds
  no entry.
\<close>

theorem consumeNotify_pending_entries:
  "(case consumeNotify n keventbuf tv (w, root, coll) of (r, w', root', coll') \<Rightarrow>
      let es = (if cancelled root then [] else handled w root (delivered n keventbuf)) in
        coll' = coll @
          List.map_filter
            (\<lambda>i. map_option
               (\<lambda>p. \<lparr>pending_path = p, pending_now = tv,
                     pending_flags = (if udata_dir_bit (es ! i) then {}
                                      else {W_PENDING_RECURSIVE, W_PENDING_VIA_NOTIFY})\<rparr>)
               (found_path w es i))
            [0..<length es])
   \<and> (let es = handled w root (delivered n keventbuf) in
        \<forall>i<length es.
          fd_to_name (fst (snd (consume_events tv (take i es) (w, root, coll)))) (ident (es ! i))
            = found_path w es i)"
proof (rule conjI)
  show "let es = handled w root (delivered n keventbuf) in
        \<forall>i<length es.
          fd_to_name (fst (snd (consume_events tv (take i es) (w, root, coll)))) (ident (es ! i))
            = found_path w es i"
    unfolding Let_def by (intro allI impI) (rule consume_events_sees)
next
  show "case consumeNotify n keventbuf tv (w, root, coll) of (r, w', root', coll') \<Rightarrow>
      let es = (if cancelled root then [] else handled w root (delivered n keventbuf)) in
        coll' = coll @
          List.map_filter
            (\<lambda>i. map_option
               (\<lambda>p. \<lparr>pending_path = p, pending_now = tv,
                     pending_flags = (if udata_dir_bit (es ! i) then {}
                                      else {W_PENDING_RECURSIVE, W_PENDING_VIA_NOTIFY})\<rparr>)
               (found_path w es i))
            [0..<length es]"
  proof (cases "cancelled root")
    case True
    then show ?thesis by (simp add: consumeNotify_def map_filter_simps)
  next
    case False
    obtain b w' root' coll' where
      r: "consume_events tv (delivered n keventbuf) (w, root, coll) = (b, w', root', coll')"
      by (cases "consume_events tv (delivered n keventbuf) (w, root, coll)")
    from consume_events_coll [of tv "delivered n keventbuf" w root coll] r
    have "coll' = coll @ List.map_filter
         (\<lambda>i. map_option
            (\<lambda>p. \<lparr>pending_path = p, pending_now = tv,
                  pending_flags = notify_flags (handled w root (delivered n keventbuf) ! i)\<rparr>)
            (found_path w (handled w root (delivered n keventbuf)) i))
         [0..<length (handled w root (delivered n keventbuf))]"
      by simp
    moreover have
      "consumeNotify n keventbuf tv (w, root, coll) = (b \<and> 0 < n, w', root', coll')"
      using False r by (cases b) (simp_all add: consumeNotify_def)
    ultimately show ?thesis
      using False by (simp only: Let_def if_False case_prod_conv notify_flags_def)
  qed
qed

text \<open>
  Seven delivered events: a write on the file \<open>/r/a\<close>, a delete of the directory
  \<open>/r/d\<close>, an event for a descriptor that is not in the table, a second event on
  \<open>/r/a\<close>, an event on the descriptor of \<open>/r/d\<close> whose watch is gone by then, a rename
  of the root, and a third event on \<open>/r/a\<close> behind it. Three entries are added, and
  when the loop reaches the fifth event the descriptor of \<open>/r/d\<close> is no longer in
  \<open>fd_to_name\<close>.
\<close>

theorem consumeNotify_pending_entries_witness:
  "(case consumeNotify 7
      [\<lparr>ident = 4, fflags = 0x2, udata_dir_bit = False\<rparr>,
       \<lparr>ident = 5, fflags = 0x1, udata_dir_bit = True\<rparr>,
       \<lparr>ident = 9, fflags = 0x2, udata_dir_bit = False\<rparr>,
       \<lparr>ident = 4, fflags = 0x4, udata_dir_bit = False\<rparr>,
       \<lparr>ident = 5, fflags = 0x2, udata_dir_bit = True\<rparr>,
       \<lparr>ident = 3, fflags = 0x20, udata_dir_bit = True\<rparr>,
       \<lparr>ident = 4, fflags = 0x2, udata_dir_bit = False\<rparr>]
      \<lparr>tv_sec = 100, tv_usec = 0\<rparr>
      (\<lparr>name_to_fd = [''/r'' \<mapsto> 3, ''/r/a'' \<mapsto> 4, ''/r/d'' \<mapsto> 5],
        fd_to_name = [3 \<mapsto> ''/r'', 4 \<mapsto> ''/r/a'', 5 \<mapsto> ''/r/d''],
        open_fds = {3, 4, 5}, open_dirs = {}, kq_registered = {3, 4, 5}\<rparr>,
       \<lparr>root_path = ''/r'', cancelled = False, recrawl_reasons = [], open_errno_calls = []\<rparr>,
       [])
    of (r, w', root', coll') \<Rightarrow>
      coll' = [\<lparr>pending_path = ''/r/a'', pending_now = \<lparr>tv_sec = 100, tv_usec = 0\<rparr>,
                pending_flags = {W_PENDING_RECURSIVE, W_PENDING_VIA_NOTIFY}\<rparr>,
               \<lparr>pending_path = ''/r/d'', pending_now = \<lparr>tv_sec = 100, tv_usec = 0\<rparr>,
                pending_flags = {}\<rparr>,
               \<lparr>pending_path = ''/r/a'', pending_now = \<lparr>tv_sec = 100, tv_usec = 0\<rparr>,
                pending_flags = {W_PENDING_RECURSIVE, W_PENDING_VIA_NOTIFY}\<rparr>])
   \<and> fd_to_name (fst (snd (consume_events \<lparr>tv_sec = 100, tv_usec = 0\<rparr>
        [\<lparr>ident = 4, fflags = 0x2, udata_dir_bit = False\<rparr>,
         \<lparr>ident = 5, fflags = 0x1, udata_dir_bit = True\<rparr>,
         \<lparr>ident = 9, fflags = 0x2, udata_dir_bit = False\<rparr>,
         \<lparr>ident = 4, fflags = 0x4, udata_dir_bit = False\<rparr>]
        (\<lparr>name_to_fd = [''/r'' \<mapsto> 3, ''/r/a'' \<mapsto> 4, ''/r/d'' \<mapsto> 5],
          fd_to_name = [3 \<mapsto> ''/r'', 4 \<mapsto> ''/r/a'', 5 \<mapsto> ''/r/d''],
          open_fds = {3, 4, 5}, open_dirs = {}, kq_registered = {3, 4, 5}\<rparr>,
         \<lparr>root_path = ''/r'', cancelled = False, recrawl_reasons = [], open_errno_calls = []\<rparr>,
         [])))) 5 = None"
proof -
  let ?w = "\<lparr>name_to_fd = [''/r'' \<mapsto> 3, ''/r/a'' \<mapsto> 4, ''/r/d'' \<mapsto> 5],
        fd_to_name = [3 \<mapsto> ''/r'', 4 \<mapsto> ''/r/a'', 5 \<mapsto> ''/r/d''],
        open_fds = {3, 4, 5}, open_dirs = {}, kq_registered = {3, 4, 5}\<rparr>"
  let ?root = "\<lparr>root_path = ''/r'', cancelled = False, recrawl_reasons = [],
        open_errno_calls = []\<rparr>"
  let ?buf = "[\<lparr>ident = 4, fflags = 0x2, udata_dir_bit = False\<rparr>,
       \<lparr>ident = 5, fflags = 0x1, udata_dir_bit = True\<rparr>,
       \<lparr>ident = 9, fflags = 0x2, udata_dir_bit = False\<rparr>,
       \<lparr>ident = 4, fflags = 0x4, udata_dir_bit = False\<rparr>,
       \<lparr>ident = 5, fflags = 0x2, udata_dir_bit = True\<rparr>,
       \<lparr>ident = 3, fflags = 0x20, udata_dir_bit = True\<rparr>,
       \<lparr>ident = 4, fflags = 0x2, udata_dir_bit = False\<rparr>]"
  note t = consumeNotify_pending_entries
    [where root = ?root and n = 7 and keventbuf = ?buf and w = ?w
       and tv = "\<lparr>tv_sec = 100, tv_usec = 0\<rparr>" and coll = "[]"]
  have h: "handled ?w ?root (delivered 7 ?buf) = take 5 ?buf"
    by (simp add: delivered_def handled_def root_loss_def is_removal_def
        NOTE_DELETE_def NOTE_RENAME_def NOTE_REVOKE_def)
  from t [THEN conjunct1] have a:
    "case consumeNotify 7 ?buf \<lparr>tv_sec = 100, tv_usec = 0\<rparr> (?w, ?root, []) of
       (r, w', root', coll') \<Rightarrow>
      coll' = [\<lparr>pending_path = ''/r/a'', pending_now = \<lparr>tv_sec = 100, tv_usec = 0\<rparr>,
                pending_flags = {W_PENDING_RECURSIVE, W_PENDING_VIA_NOTIFY}\<rparr>,
               \<lparr>pending_path = ''/r/d'', pending_now = \<lparr>tv_sec = 100, tv_usec = 0\<rparr>,
                pending_flags = {}\<rparr>,
               \<lparr>pending_path = ''/r/a'', pending_now = \<lparr>tv_sec = 100, tv_usec = 0\<rparr>,
                pending_flags = {W_PENDING_RECURSIVE, W_PENDING_VIA_NOTIFY}\<rparr>]"
    by (simp add: h found_path_def is_removal_def NOTE_DELETE_def NOTE_RENAME_def
        NOTE_REVOKE_def map_filter_simps Let_def)
  from t [THEN conjunct2, unfolded Let_def h, THEN spec, of 4] have b:
    "fd_to_name (fst (snd (consume_events \<lparr>tv_sec = 100, tv_usec = 0\<rparr> (take 4 ?buf)
        (?w, ?root, [])))) 5 = None"
    by (simp add: found_path_def is_removal_def NOTE_DELETE_def NOTE_RENAME_def NOTE_REVOKE_def)
  from a b show ?thesis by simp
qed

text \<open>
  Claim C5 as stated fails for a removal event on the root: its descriptor is in
  \<open>fd_to_name\<close>, the event is delivered, and the call cancels the root and returns with
  the pending collection still empty. It also fails when the root is already
  cancelled at the call: a delivered write on the root directory, whose descriptor is
  in \<open>fd_to_name\<close>, adds no entry.
\<close>

theorem consumeNotify_root_event_adds_nothing:
  "fd_to_name \<lparr>name_to_fd = [''/r'' \<mapsto> 3], fd_to_name = [3 \<mapsto> ''/r''],
        open_fds = {3}, open_dirs = {}, kq_registered = {3}\<rparr> 3 = Some ''/r''
   \<and> delivered 1 [\<lparr>ident = 3, fflags = 0x1, udata_dir_bit = True\<rparr>]
       = [\<lparr>ident = 3, fflags = 0x1, udata_dir_bit = True\<rparr>]
   \<and> consumeNotify 1 [\<lparr>ident = 3, fflags = 0x1, udata_dir_bit = True\<rparr>]
      \<lparr>tv_sec = 100, tv_usec = 0\<rparr>
      (\<lparr>name_to_fd = [''/r'' \<mapsto> 3], fd_to_name = [3 \<mapsto> ''/r''],
        open_fds = {3}, open_dirs = {}, kq_registered = {3}\<rparr>,
       \<lparr>root_path = ''/r'', cancelled = False, recrawl_reasons = [], open_errno_calls = []\<rparr>,
       [])
     = (False,
        \<lparr>name_to_fd = [''/r'' \<mapsto> 3], fd_to_name = [3 \<mapsto> ''/r''],
        open_fds = {3}, open_dirs = {}, kq_registered = {3}\<rparr>,
        \<lparr>root_path = ''/r'', cancelled = True, recrawl_reasons = [], open_errno_calls = []\<rparr>,
        [])
   \<and> delivered 1 [\<lparr>ident = 3, fflags = 0x2, udata_dir_bit = True\<rparr>]
       = [\<lparr>ident = 3, fflags = 0x2, udata_dir_bit = True\<rparr>]
   \<and> consumeNotify 1 [\<lparr>ident = 3, fflags = 0x2, udata_dir_bit = True\<rparr>]
      \<lparr>tv_sec = 100, tv_usec = 0\<rparr>
      (\<lparr>name_to_fd = [''/r'' \<mapsto> 3], fd_to_name = [3 \<mapsto> ''/r''],
        open_fds = {3}, open_dirs = {}, kq_registered = {3}\<rparr>,
       \<lparr>root_path = ''/r'', cancelled = True, recrawl_reasons = [], open_errno_calls = []\<rparr>,
       [])
     = (False,
        \<lparr>name_to_fd = [''/r'' \<mapsto> 3], fd_to_name = [3 \<mapsto> ''/r''],
        open_fds = {3}, open_dirs = {}, kq_registered = {3}\<rparr>,
        \<lparr>root_path = ''/r'', cancelled = True, recrawl_reasons = [], open_errno_calls = []\<rparr>,
        [])"
  by (simp add: consumeNotify_def delivered_def is_removal_def NOTE_DELETE_def NOTE_RENAME_def
      NOTE_REVOKE_def w_root_cancel_def)

subsection \<open>consumeNotify: removal of watches\<close>

text \<open>
  Claim C6, as amended. When the root is cancelled at the call, the call changes
  nothing and returns false. Otherwise: for every event the loop handles (the
  delivered events before the first removal event of the root) that carries a
  DELETE, RENAME or REVOKE flag for a descriptor that \<open>fd_to_name\<close> maps to a path, the
  path is not the root path and the watch is removed: the path is gone from
  \<open>name_to_fd\<close>, the descriptor is gone from \<open>fd_to_name\<close> and is no longer registered
  with the kqueue. When a delivered event carries such a flag for a descriptor of the
  root path, the call cancels the root and returns false, and the entries of the
  root stay in both tables; when there is none, the root is left as it was. Every
  other entry of the two tables stays, those of the removal events delivered behind
  the root's among them. The descriptors no longer registered are those of the
  removed watches together with the descriptors \<open>name_to_fd\<close> held for their paths,
  and the latter are the descriptors closed.
\<close>

theorem consumeNotify_removal:
  "case consumeNotify n keventbuf tv (w, root, coll) of (r, w', root', coll') \<Rightarrow>
     if cancelled root then w' = w \<and> root' = root \<and> \<not> r
     else
      ((\<forall>e\<in>set (handled w root (delivered n keventbuf)). \<forall>path.
           is_removal e \<and> fd_to_name w (ident e) = Some path \<longrightarrow>
             path \<noteq> root_path root \<and> name_to_fd w' path = None
             \<and> fd_to_name w' (ident e) = None \<and> ident e \<notin> kq_registered w')
     \<and> (if \<exists>e\<in>set (delivered n keventbuf). root_loss w root e
         then root' = w_root_cancel root \<and> cancelled root' \<and> \<not> r
              \<and> name_to_fd w' (root_path root) = name_to_fd w (root_path root)
              \<and> (\<forall>d. fd_to_name w d = Some (root_path root) \<longrightarrow>
                     fd_to_name w' d = Some (root_path root))
         else root' = root)
     \<and> (\<forall>d. (\<forall>e\<in>set (handled w root (delivered n keventbuf)). is_removal e \<longrightarrow> ident e \<noteq> d)
            \<longrightarrow> fd_to_name w' d = fd_to_name w d)
     \<and> (\<forall>k. (\<forall>e\<in>set (handled w root (delivered n keventbuf)).
                 is_removal e \<longrightarrow> fd_to_name w (ident e) \<noteq> Some k)
            \<longrightarrow> name_to_fd w' k = name_to_fd w k)
     \<and> kq_registered w' = kq_registered w -
          {d. \<exists>e\<in>set (handled w root (delivered n keventbuf)). is_removal e \<and>
                (\<exists>p. fd_to_name w (ident e) = Some p
                   \<and> (d = ident e \<or> name_to_fd w p = Some d))}
     \<and> open_fds w' = open_fds w -
          {d. \<exists>e\<in>set (handled w root (delivered n keventbuf)). is_removal e \<and>
                (\<exists>p. fd_to_name w (ident e) = Some p \<and> name_to_fd w p = Some d)})"
proof (cases "cancelled root")
  case True
  then show ?thesis by (simp add: consumeNotify_def)
next
  case False
  let ?es = "delivered n keventbuf"
  let ?H = "handled w root ?es"
  obtain b w' root' coll' where
    r: "consume_events tv ?es (w, root, coll) = (b, w', root', coll')"
    by (cases "consume_events tv ?es (w, root, coll)")
  note t = consume_events_tables [OF r]
  note f = t [THEN conjunct1] and g = t [THEN conjunct2, THEN conjunct1]
    and k = t [THEN conjunct2, THEN conjunct2, THEN conjunct1]
    and o = t [THEN conjunct2, THEN conjunct2, THEN conjunct2, THEN conjunct1]
  have b: "b \<longleftrightarrow> \<not> (\<exists>e\<in>set ?es. root_loss w root e)"
    using consume_events_returns [of tv ?es w root coll] r by (simp add: root_loss_def)
  have rt: "root' = (if b then root else w_root_cancel root)"
    by (rule consume_events_root [OF r])
  have nr: "p \<noteq> root_path root"
    if "e \<in> set ?H" "is_removal e" "fd_to_name w (ident e) = Some p" for e p
  proof -
    from that(1) have "\<not> root_loss w root e"
      unfolding handled_def by (rule set_takeWhileD [THEN conjunct2])
    with that(2,3) show ?thesis by (simp add: root_loss_def)
  qed
  have c1: "\<forall>e\<in>set ?H. \<forall>path.
           is_removal e \<and> fd_to_name w (ident e) = Some path \<longrightarrow>
             path \<noteq> root_path root \<and> name_to_fd w' path = None
             \<and> fd_to_name w' (ident e) = None \<and> ident e \<notin> kq_registered w'"
  proof (intro ballI allI impI)
    fix e path assume e: "e \<in> set ?H" and "is_removal e \<and> fd_to_name w (ident e) = Some path"
    then have rm: "is_removal e" and fp: "fd_to_name w (ident e) = Some path" by simp_all
    have "name_to_fd w' path = None" using g e rm fp by auto
    moreover have "fd_to_name w' (ident e) = None" using f e rm by auto
    moreover have "ident e \<notin> kq_registered w'" using k e rm fp by auto
    ultimately show "path \<noteq> root_path root \<and> name_to_fd w' path = None
             \<and> fd_to_name w' (ident e) = None \<and> ident e \<notin> kq_registered w'"
      using nr [OF e rm fp] by simp
  qed
  have c3: "\<forall>d. (\<forall>e\<in>set ?H. is_removal e \<longrightarrow> ident e \<noteq> d) \<longrightarrow> fd_to_name w' d = fd_to_name w d"
    using f by auto
  have c4: "\<forall>k. (\<forall>e\<in>set ?H. is_removal e \<longrightarrow> fd_to_name w (ident e) \<noteq> Some k)
            \<longrightarrow> name_to_fd w' k = name_to_fd w k"
    using g by auto
  have keep1: "name_to_fd w' (root_path root) = name_to_fd w (root_path root)"
    using c4 nr by blast
  have keep2: "\<forall>d. fd_to_name w d = Some (root_path root) \<longrightarrow>
                     fd_to_name w' d = Some (root_path root)"
  proof (intro allI impI)
    fix d assume d: "fd_to_name w d = Some (root_path root)"
    have "\<forall>e\<in>set ?H. is_removal e \<longrightarrow> ident e \<noteq> d" using nr d by blast
    with c3 d show "fd_to_name w' d = Some (root_path root)" by simp
  qed
  have c2: "if \<exists>e\<in>set ?es. root_loss w root e
         then root' = w_root_cancel root \<and> cancelled root' \<and> \<not> b
              \<and> name_to_fd w' (root_path root) = name_to_fd w (root_path root)
              \<and> (\<forall>d. fd_to_name w d = Some (root_path root) \<longrightarrow>
                     fd_to_name w' d = Some (root_path root))
         else root' = root"
    using b rt keep1 keep2 by (simp add: w_root_cancel_def)
  have res: "consumeNotify n keventbuf tv (w, root, coll) = (b \<and> 0 < n, w', root', coll')"
    using False r by (cases b) (simp_all add: consumeNotify_def)
  from c1 c2 c3 c4 k o False show ?thesis
    unfolding res by (simp add: w_root_cancel_def split: if_splits)
qed

text \<open>
  A delete of the watched file \<open>/r/a\<close>, then a delete of the root, then a delete of
  the directory \<open>/r/d\<close>: the watch of \<open>/r/a\<close> is removed, the root is cancelled, and
  the watches of the root and of \<open>/r/d\<close> stay.
\<close>

theorem consumeNotify_removal_witness:
  "(case consumeNotify 3
      [\<lparr>ident = 4, fflags = 0x1, udata_dir_bit = False\<rparr>,
       \<lparr>ident = 3, fflags = 0x1, udata_dir_bit = True\<rparr>,
       \<lparr>ident = 5, fflags = 0x1, udata_dir_bit = True\<rparr>]
      \<lparr>tv_sec = 100, tv_usec = 0\<rparr>
      (\<lparr>name_to_fd = [''/r'' \<mapsto> 3, ''/r/a'' \<mapsto> 4, ''/r/d'' \<mapsto> 5],
        fd_to_name = [3 \<mapsto> ''/r'', 4 \<mapsto> ''/r/a'', 5 \<mapsto> ''/r/d''],
        open_fds = {3, 4, 5}, open_dirs = {}, kq_registered = {3, 4, 5}\<rparr>,
       \<lparr>root_path = ''/r'', cancelled = False, recrawl_reasons = [], open_errno_calls = []\<rparr>,
       [])
    of (r, w', root', coll') \<Rightarrow>
      name_to_fd w' ''/r/a'' = None \<and> fd_to_name w' 4 = None \<and> 4 \<notin> kq_registered w'
      \<and> cancelled root' \<and> \<not> r
      \<and> name_to_fd w' ''/r'' = Some 3 \<and> fd_to_name w' 3 = Some ''/r''
      \<and> name_to_fd w' ''/r/d'' = Some 5 \<and> fd_to_name w' 5 = Some ''/r/d''
      \<and> kq_registered w' = {3, 5} \<and> open_fds w' = {3, 5})"
  using consumeNotify_removal
    [where root = "\<lparr>root_path = ''/r'', cancelled = False, recrawl_reasons = [],
                     open_errno_calls = []\<rparr>"
       and n = 3
       and keventbuf = "[\<lparr>ident = 4, fflags = 0x1, udata_dir_bit = False\<rparr>,
       \<lparr>ident = 3, fflags = 0x1, udata_dir_bit = True\<rparr>,
       \<lparr>ident = 5, fflags = 0x1, udata_dir_bit = True\<rparr>]"
       and w = "\<lparr>name_to_fd = [''/r'' \<mapsto> 3, ''/r/a'' \<mapsto> 4, ''/r/d'' \<mapsto> 5],
        fd_to_name = [3 \<mapsto> ''/r'', 4 \<mapsto> ''/r/a'', 5 \<mapsto> ''/r/d''],
        open_fds = {3, 4, 5}, open_dirs = {}, kq_registered = {3, 4, 5}\<rparr>"
       and tv = "\<lparr>tv_sec = 100, tv_usec = 0\<rparr>" and coll = "[]"]
  by (simp add: delivered_def handled_def root_loss_def is_removal_def
      NOTE_DELETE_def NOTE_RENAME_def NOTE_REVOKE_def consumeNotify_def w_root_cancel_def
      w_pending_coll_add_def notify_flags_def kevent_delete_def name_to_fd_del_def
      fd_to_name_del_def kqueue_del_key_def sys_close_def insert_Diff_if)

text \<open>
  Claim C6 as stated fails for a removal event that is delivered behind a removal
  event of the root: the call returns at the root's event, and the watch of \<open>/r/a\<close>
  is still in both tables and still registered. It also fails when the root is
  already cancelled at the call: the delivered delete of \<open>/r/a\<close> is dropped and the
  watch stays.
\<close>

theorem consumeNotify_removal_after_root_loss:
  "is_removal \<lparr>ident = 4, fflags = 0x1, udata_dir_bit = False\<rparr>
   \<and> \<lparr>ident = 4, fflags = 0x1, udata_dir_bit = False\<rparr>
       \<in> set (delivered 2 [\<lparr>ident = 3, fflags = 0x1, udata_dir_bit = True\<rparr>,
                            \<lparr>ident = 4, fflags = 0x1, udata_dir_bit = False\<rparr>])
   \<and> (case consumeNotify 2
          [\<lparr>ident = 3, fflags = 0x1, udata_dir_bit = True\<rparr>,
           \<lparr>ident = 4, fflags = 0x1, udata_dir_bit = False\<rparr>]
          \<lparr>tv_sec = 100, tv_usec = 0\<rparr>
          (\<lparr>name_to_fd = [''/r'' \<mapsto> 3, ''/r/a'' \<mapsto> 4],
            fd_to_name = [3 \<mapsto> ''/r'', 4 \<mapsto> ''/r/a''],
            open_fds = {3, 4}, open_dirs = {}, kq_registered = {3, 4}\<rparr>,
           \<lparr>root_path = ''/r'', cancelled = False, recrawl_reasons = [],
            open_errno_calls = []\<rparr>,
           [])
        of (r, w', root', coll') \<Rightarrow>
          name_to_fd w' ''/r/a'' = Some 4 \<and> fd_to_name w' 4 = Some ''/r/a''
          \<and> 4 \<in> kq_registered w')
   \<and> \<lparr>ident = 4, fflags = 0x1, udata_dir_bit = False\<rparr>
       \<in> set (delivered 1 [\<lparr>ident = 4, fflags = 0x1, udata_dir_bit = False\<rparr>])
   \<and> (case consumeNotify 1
          [\<lparr>ident = 4, fflags = 0x1, udata_dir_bit = False\<rparr>]
          \<lparr>tv_sec = 100, tv_usec = 0\<rparr>
          (\<lparr>name_to_fd = [''/r'' \<mapsto> 3, ''/r/a'' \<mapsto> 4],
            fd_to_name = [3 \<mapsto> ''/r'', 4 \<mapsto> ''/r/a''],
            open_fds = {3, 4}, open_dirs = {}, kq_registered = {3, 4}\<rparr>,
           \<lparr>root_path = ''/r'', cancelled = True, recrawl_reasons = [],
            open_errno_calls = []\<rparr>,
           [])
        of (r, w', root', coll') \<Rightarrow>
          name_to_fd w' ''/r/a'' = Some 4 \<and> fd_to_name w' 4 = Some ''/r/a''
          \<and> 4 \<in> kq_registered w')"
  by (simp add: delivered_def is_removal_def NOTE_DELETE_def NOTE_RENAME_def NOTE_REVOKE_def
      consumeNotify_def w_root_cancel_def)

subsection \<open>consumeNotify: the value returned\<close>

text \<open>
  Claim C7, as amended. \<open>consumeNotify\<close> returns true if and only if the kernel
  delivered at least one event, the root was not cancelled at the call, and no
  delivered event with a DELETE, RENAME or REVOKE flag belongs to the root path.
\<close>

theorem consumeNotify_returns_true_iff:
  "fst (consumeNotify n keventbuf tv (w, root, coll)) \<longleftrightarrow>
     0 < n \<and> \<not> cancelled root
     \<and> \<not> (\<exists>e\<in>set (delivered n keventbuf).
            is_removal e \<and> fd_to_name w (ident e) = Some (root_path root))"
proof (cases "cancelled root")
  case True
  then show ?thesis by (simp add: consumeNotify_def)
next
  case False
  obtain b s where r: "consume_events tv (delivered n keventbuf) (w, root, coll) = (b, s)"
    by (cases "consume_events tv (delivered n keventbuf) (w, root, coll)")
  from False r have "fst (consumeNotify n keventbuf tv (w, root, coll)) \<longleftrightarrow> b \<and> 0 < n"
    by (cases b) (simp_all add: consumeNotify_def)
  moreover have "b \<longleftrightarrow> \<not> (\<exists>e\<in>set (delivered n keventbuf).
            is_removal e \<and> fd_to_name w (ident e) = Some (root_path root))"
    using consume_events_returns [of tv "delivered n keventbuf" w root coll] r by simp
  ultimately show ?thesis using False by blast
qed

text \<open>One delivered write returns true; an empty delivery returns false.\<close>

theorem consumeNotify_returns_true_iff_witness:
  "fst (consumeNotify 1 [\<lparr>ident = 4, fflags = 0x2, udata_dir_bit = False\<rparr>]
      \<lparr>tv_sec = 100, tv_usec = 0\<rparr>
      (\<lparr>name_to_fd = [''/r/a'' \<mapsto> 4], fd_to_name = [4 \<mapsto> ''/r/a''],
        open_fds = {4}, open_dirs = {}, kq_registered = {4}\<rparr>,
       \<lparr>root_path = ''/r'', cancelled = False, recrawl_reasons = [], open_errno_calls = []\<rparr>,
       []))
   \<and> \<not> fst (consumeNotify 0 []
      \<lparr>tv_sec = 100, tv_usec = 0\<rparr>
      (\<lparr>name_to_fd = [''/r/a'' \<mapsto> 4], fd_to_name = [4 \<mapsto> ''/r/a''],
        open_fds = {4}, open_dirs = {}, kq_registered = {4}\<rparr>,
       \<lparr>root_path = ''/r'', cancelled = False, recrawl_reasons = [], open_errno_calls = []\<rparr>,
       []))"
  using consumeNotify_returns_true_iff
    [where n = 1 and keventbuf = "[\<lparr>ident = 4, fflags = 0x2, udata_dir_bit = False\<rparr>]"
       and tv = "\<lparr>tv_sec = 100, tv_usec = 0\<rparr>"
       and w = "\<lparr>name_to_fd = [''/r/a'' \<mapsto> 4], fd_to_name = [4 \<mapsto> ''/r/a''],
                 open_fds = {4}, open_dirs = {}, kq_registered = {4}\<rparr>"
       and root = "\<lparr>root_path = ''/r'', cancelled = False, recrawl_reasons = [],
                     open_errno_calls = []\<rparr>"
       and coll = "[]"]
    consumeNotify_returns_true_iff
    [where n = 0 and keventbuf = "[]"
       and tv = "\<lparr>tv_sec = 100, tv_usec = 0\<rparr>"
       and w = "\<lparr>name_to_fd = [''/r/a'' \<mapsto> 4], fd_to_name = [4 \<mapsto> ''/r/a''],
                 open_fds = {4}, open_dirs = {}, kq_registered = {4}\<rparr>"
       and root = "\<lparr>root_path = ''/r'', cancelled = False, recrawl_reasons = [],
                     open_errno_calls = []\<rparr>"
       and coll = "[]"]
  by (simp add: delivered_def is_removal_def NOTE_DELETE_def NOTE_RENAME_def NOTE_REVOKE_def)

text \<open>
  Claim C7 as stated fails when the root is already cancelled: one event is
  delivered and the call returns false.
\<close>

theorem consumeNotify_false_with_events:
  "(0::int) < 1
   \<and> delivered 1 [\<lparr>ident = 4, fflags = 0x2, udata_dir_bit = False\<rparr>]
       = [\<lparr>ident = 4, fflags = 0x2, udata_dir_bit = False\<rparr>]
   \<and> \<not> fst (consumeNotify 1 [\<lparr>ident = 4, fflags = 0x2, udata_dir_bit = False\<rparr>]
      \<lparr>tv_sec = 100, tv_usec = 0\<rparr>
      (\<lparr>name_to_fd = [''/r/a'' \<mapsto> 4], fd_to_name = [4 \<mapsto> ''/r/a''],
        open_fds = {4}, open_dirs = {}, kq_registered = {4}\<rparr>,
       \<lparr>root_path = ''/r'', cancelled = True, recrawl_reasons = [], open_errno_calls = []\<rparr>,
       []))"
  by (simp add: consumeNotify_def delivered_def)

section \<open>Properties of the view and of the query engine\<close>

lemmas ex_defs = ex_view_def ex_file_def ex_query_def no_generator_def

subsection \<open>Deduplication\<close>

text \<open>
  Processing one candidate keeps the dedup set equal to the set of the wholenames in
  the results and keeps these wholenames distinct; a candidate that passes the filter
  and the expression either adds one match or adds one to \<open>num_deduped\<close>.
\<close>

lemma process_file_inv:
  assumes "dedup_results q"
    and "dedup ctx = set (map (\<lambda>m. wholename v (file_store v (rm_file m))) (ctx_results ctx))"
    and "distinct (map (\<lambda>m. wholename v (file_store v (rm_file m))) (ctx_results ctx))"
  shows "dedup (w_query_process_file rn q v f ctx)
           = set (map (\<lambda>m. wholename v (file_store v (rm_file m)))
                   (ctx_results (w_query_process_file rn q v f ctx)))
       \<and> distinct (map (\<lambda>m. wholename v (file_store v (rm_file m)))
                   (ctx_results (w_query_process_file rn q v f ctx)))
       \<and> ctx_since (w_query_process_file rn q v f ctx) = ctx_since ctx"
  using assms by (auto simp add: w_query_process_file_def Let_def)

lemma process_file_count:
  assumes "dedup_results q"
  shows "\<exists>k. length (ctx_results (w_query_process_file rn q v f ctx)) + k
              = length (ctx_results ctx) + (if candidate_passes q v (ctx_since ctx) f then 1 else 0)
           \<and> num_deduped (w_query_process_file rn q v f ctx) = num_deduped ctx + of_nat k"
proof (cases "candidate_passes q v (ctx_since ctx) f")
  case False
  then have "w_query_process_file rn q v f ctx = ctx"
    by (auto simp add: w_query_process_file_def candidate_passes_def Let_def)
  with False show ?thesis by simp
next
  case True
  show ?thesis
  proof (cases "wholename v (file_store v f) \<in> dedup ctx")
    case True
    with \<open>candidate_passes q v (ctx_since ctx) f\<close> assms
    have "w_query_process_file rn q v f ctx = ctx\<lparr>num_deduped := num_deduped ctx + 1\<rparr>"
      by (auto simp add: w_query_process_file_def candidate_passes_def Let_def)
    with \<open>candidate_passes q v (ctx_since ctx) f\<close> show ?thesis
      by (intro exI [of _ 1]) simp
  next
    case False
    with \<open>candidate_passes q v (ctx_since ctx) f\<close> assms
    have "length (ctx_results (w_query_process_file rn q v f ctx)) = length (ctx_results ctx) + 1"
      and "num_deduped (w_query_process_file rn q v f ctx) = num_deduped ctx"
      by (auto simp add: w_query_process_file_def candidate_passes_def Let_def)
    with \<open>candidate_passes q v (ctx_since ctx) f\<close> show ?thesis
      by (intro exI [of _ 0]) simp
  qed
qed

lemma process_files_dedup:
  assumes "dedup_results q"
    and "dedup ctx = set (map (\<lambda>m. wholename v (file_store v (rm_file m))) (ctx_results ctx))"
    and "distinct (map (\<lambda>m. wholename v (file_store v (rm_file m))) (ctx_results ctx))"
  shows "distinct (map (\<lambda>m. wholename v (file_store v (rm_file m)))
                   (ctx_results (fold (w_query_process_file rn q v) cands ctx)))
       \<and> (\<exists>k. length (ctx_results (fold (w_query_process_file rn q v) cands ctx)) + k
                = length (ctx_results ctx)
                  + length (filter (candidate_passes q v (ctx_since ctx)) cands)
              \<and> num_deduped (fold (w_query_process_file rn q v) cands ctx)
                = num_deduped ctx + of_nat k)"
  using assms(2,3)
proof (induction cands arbitrary: ctx)
  case Nil
  then show ?case by simp
next
  case (Cons f fs)
  let ?c = "w_query_process_file rn q v f ctx"
  from process_file_inv [OF assms(1) Cons.prems, of rn f]
  have i1: "dedup ?c = set (map (\<lambda>m. wholename v (file_store v (rm_file m))) (ctx_results ?c))"
    and i2: "distinct (map (\<lambda>m. wholename v (file_store v (rm_file m))) (ctx_results ?c))"
    and i3: "ctx_since ?c = ctx_since ctx" by simp_all
  from Cons.IH [OF i1 i2] obtain k where
    d: "distinct (map (\<lambda>m. wholename v (file_store v (rm_file m)))
                   (ctx_results (fold (w_query_process_file rn q v) fs ?c)))"
    and k: "length (ctx_results (fold (w_query_process_file rn q v) fs ?c)) + k
                = length (ctx_results ?c)
                  + length (filter (candidate_passes q v (ctx_since ctx)) fs)"
    and n: "num_deduped (fold (w_query_process_file rn q v) fs ?c) = num_deduped ?c + of_nat k"
    using i3 by auto
  from process_file_count [OF assms(1), of rn v f ctx] obtain j where
    j: "length (ctx_results ?c) + j
          = length (ctx_results ctx) + (if candidate_passes q v (ctx_since ctx) f then 1 else 0)"
    and m: "num_deduped ?c = num_deduped ctx + of_nat j" by blast
  have "length (ctx_results (fold (w_query_process_file rn q v) fs ?c)) + (k + j)
          = length (ctx_results ctx)
            + length (filter (candidate_passes q v (ctx_since ctx)) (f # fs))"
    using k j by (cases "candidate_passes q v (ctx_since ctx) f") simp_all
  moreover have "num_deduped (fold (w_query_process_file rn q v) fs ?c)
          = num_deduped ctx + of_nat (k + j)"
    using n m by simp
  ultimately show ?case using d by (simp only: fold_simps o_apply) blast
qed

lemma process_file_names:
  assumes "dedup_results q"
    and "dedup ctx = set (map (\<lambda>m. wholename v (file_store v (rm_file m))) (ctx_results ctx))"
  shows "set (map (\<lambda>m. wholename v (file_store v (rm_file m)))
                (ctx_results (w_query_process_file rn q v f ctx)))
       = set (map (\<lambda>m. wholename v (file_store v (rm_file m))) (ctx_results ctx))
         \<union> (if candidate_passes q v (ctx_since ctx) f
            then {wholename v (file_store v f)} else {})"
  using assms by (auto simp add: w_query_process_file_def candidate_passes_def Let_def)

lemma process_files_names:
  assumes "dedup_results q"
    and "dedup ctx = set (map (\<lambda>m. wholename v (file_store v (rm_file m))) (ctx_results ctx))"
    and "distinct (map (\<lambda>m. wholename v (file_store v (rm_file m))) (ctx_results ctx))"
  shows "set (map (\<lambda>m. wholename v (file_store v (rm_file m)))
                (ctx_results (fold (w_query_process_file rn q v) cands ctx)))
       = set (map (\<lambda>m. wholename v (file_store v (rm_file m))) (ctx_results ctx))
         \<union> (\<lambda>f. wholename v (file_store v f))
             ` set (filter (candidate_passes q v (ctx_since ctx)) cands)"
  using assms(2,3)
proof (induction cands arbitrary: ctx)
  case Nil
  then show ?case by simp
next
  case (Cons f fs)
  let ?c = "w_query_process_file rn q v f ctx"
  from process_file_inv [OF assms(1) Cons.prems, of rn f]
  have i1: "dedup ?c = set (map (\<lambda>m. wholename v (file_store v (rm_file m))) (ctx_results ?c))"
    and i2: "distinct (map (\<lambda>m. wholename v (file_store v (rm_file m))) (ctx_results ?c))"
    and i3: "ctx_since ?c = ctx_since ctx" by simp_all
  have "set (map (\<lambda>m. wholename v (file_store v (rm_file m)))
                (ctx_results (fold (w_query_process_file rn q v) fs ?c)))
       = set (map (\<lambda>m. wholename v (file_store v (rm_file m))) (ctx_results ?c))
         \<union> (\<lambda>f. wholename v (file_store v f))
             ` set (filter (candidate_passes q v (ctx_since ctx)) fs)"
    using Cons.IH [OF i1 i2] i3 by simp
  also have "set (map (\<lambda>m. wholename v (file_store v (rm_file m))) (ctx_results ?c))
       = set (map (\<lambda>m. wholename v (file_store v (rm_file m))) (ctx_results ctx))
         \<union> (if candidate_passes q v (ctx_since ctx) f
            then {wholename v (file_store v f)} else {})"
    by (rule process_file_names [OF assms(1) Cons.prems(1)])
  finally show ?case by (cases "candidate_passes q v (ctx_since ctx) f") auto
qed

text \<open>
  Claim C9. With \<open>dedup_results\<close> set, no wholename appears more than once among the
  matches of a query; the wholenames of the matches are those of the candidates that
  pass the relative-root filter and the expression; and \<open>num_deduped\<close>, a 32-bit
  counter, is the number of passing candidate occurrences beyond the matches, which
  are the occurrences the dedup check suppressed.
\<close>

theorem dedup_law:
  assumes "dedup_results q"
  shows "let ctx = w_query_run gens rn q v since;
             passing = filter (candidate_passes q v since)
                         (generate gens v q since);
             names = map (\<lambda>m. wholename v (file_store v (rm_file m))) (ctx_results ctx)
         in distinct names
          \<and> set names = (\<lambda>f. wholename v (file_store v f)) ` set passing
          \<and> length names \<le> length passing
          \<and> num_deduped ctx = of_nat (length passing - length names)"
proof -
  let ?cands = "generate gens v q since"
  let ?ctx0 = "w_query_ctx_init since"
  have d0: "dedup ?ctx0 = set (map (\<lambda>m. wholename v (file_store v (rm_file m))) (ctx_results ?ctx0))"
    and n0: "distinct (map (\<lambda>m. wholename v (file_store v (rm_file m))) (ctx_results ?ctx0))"
    by (simp_all add: w_query_ctx_init_def)
  from process_files_dedup [OF assms d0 n0, of rn ?cands] obtain k where
    d: "distinct (map (\<lambda>m. wholename v (file_store v (rm_file m)))
                   (ctx_results (fold (w_query_process_file rn q v) ?cands ?ctx0)))"
    and k: "length (ctx_results (fold (w_query_process_file rn q v) ?cands ?ctx0)) + k
              = length (filter (candidate_passes q v since) ?cands)"
    and n: "num_deduped (fold (w_query_process_file rn q v) ?cands ?ctx0) = of_nat k"
    by (auto simp add: w_query_ctx_init_def)
  from k have k': "k = length (filter (candidate_passes q v since) ?cands)
                     - length (ctx_results (fold (w_query_process_file rn q v) ?cands ?ctx0))"
    and le: "length (ctx_results (fold (w_query_process_file rn q v) ?cands ?ctx0))
               \<le> length (filter (candidate_passes q v since) ?cands)"
    by simp_all
  have s: "set (map (\<lambda>m. wholename v (file_store v (rm_file m)))
                (ctx_results (fold (w_query_process_file rn q v) ?cands ?ctx0)))
         = (\<lambda>f. wholename v (file_store v f))
             ` set (filter (candidate_passes q v since) ?cands)"
    using process_files_names [OF assms d0 n0, of rn ?cands]
    by (simp add: w_query_ctx_init_def)
  from d le s n k' show ?thesis
    by (simp add: w_query_run_def Let_def)
qed

text \<open>
  The suffix generator yields \<open>a.txt\<close> and \<open>b.txt\<close> twice each: two matches, two
  suppressed.
\<close>

theorem dedup_law_witness:
  "map rm_file (ctx_results
      (w_query_run no_generator 1 ex_query ex_view w_query_since_init)) = [1, 2]
   \<and> generate no_generator ex_view ex_query w_query_since_init = [1, 2, 1, 2]
   \<and> num_deduped (w_query_run no_generator 1 ex_query ex_view w_query_since_init) = 2"
  using dedup_law [of ex_query no_generator 1 ex_view w_query_since_init]
  by (simp add: ex_defs w_query_run_def generate_def choose_generator_def suffixGenerator_def
      w_query_process_file_def w_query_ctx_init_def w_query_since_init_def wholename_def
      dir_full_path_def w_dir_path_cat_str_def w_query_file_matches_relative_root_def
      match_relname_def Let_def)

subsection \<open>Fresh instances\<close>

text \<open>
  Claim C1. When the since-spec of a query resolves to a tick that precedes the
  last age-out tick of the view, every result the execution returns has
  \<open>is_fresh_instance\<close> set, and its list of matches is empty when the query sets
  \<open>empty_on_fresh_instance\<close>. The execution does return a result when the lock is
  acquired, and also without the lock when \<open>empty_on_fresh_instance\<close> is set.
\<close>

theorem fresh_instance_law:
  assumes "since_spec q = Some cs"
    and "clockspec_tick cursors cs = Some t"
    and "t < last_age_out_tick v"
  shows "(\<forall>res. w_query_execute gens cursors lk rn q v = Inr res \<longrightarrow>
            is_fresh_instance res \<and> (empty_on_fresh_instance q \<longrightarrow> results res = []))
       \<and> (empty_on_fresh_instance q \<or> lk = Lock_acquired \<longrightarrow>
            (\<exists>res. w_query_execute gens cursors lk rn q v = Inr res))"
  using assms
  by (cases lk) (auto simp add: w_query_execute_def resolve_since_def w_query_since_init_def Let_def)

text \<open>
  The last age-out of the example view was at tick 4. A query since tick 2 with
  \<open>empty_on_fresh_instance\<close> returns the empty fresh result; a query since a cursor at
  tick 0 returns both \<open>txt\<close> files as a fresh instance.
\<close>

theorem fresh_instance_law_witness:
  "w_query_execute no_generator (\<lambda>nm. 0) Lock_timeout 1
     (ex_query\<lparr>since_spec := Some (Clock_ticks 2), empty_on_fresh_instance := True\<rparr>) ex_view
   = Inr \<lparr>is_fresh_instance = True, results = [], root_number = 1, ticks = 5\<rparr>
   \<and> (case w_query_execute no_generator (\<lambda>nm. 0) Lock_acquired 1
             (ex_query\<lparr>since_spec := Some (Named_cursor ''n'')\<rparr>) ex_view of
        Inl e \<Rightarrow> False
      | Inr res \<Rightarrow> is_fresh_instance res \<and> map rm_file (results res) = [1, 2])"
  using fresh_instance_law [of "ex_query\<lparr>since_spec := Some (Clock_ticks 2),
          empty_on_fresh_instance := True\<rparr>" "Clock_ticks 2" "\<lambda>nm. 0" 2 ex_view
        no_generator Lock_timeout 1]
  by (simp add: ex_defs w_query_execute_def resolve_since_def clockspec_tick_def
      w_query_run_def generate_def choose_generator_def suffixGenerator_def
      w_query_process_file_def w_query_ctx_init_def w_query_since_init_def wholename_def
      dir_full_path_def w_dir_path_cat_str_def w_query_file_matches_relative_root_def
      match_relname_def Let_def)

subsection \<open>Mutations and the recency list\<close>

















end
